theory Spec2Isabelle
  imports Complex_Main
begin

section \<open>Exceptions of the Python source as values\<close>

text \<open>
  Every exception that \<^verbatim>\<open>select.py\<close> can raise, or that the tree library raises into
  it, is a constructor here; a function that may raise returns \<open>error + 'a\<close> with
  \<open>Inl\<close> for the exception.
\<close>

datatype error =
    IndexError
  | ValueError
  | UnboundLocalError
  | AttributeError
  | MissingNodeError
  | DuplicateNodeError

section \<open>String helpers\<close>

text \<open>\<^verbatim>\<open>s.startswith(p)\<close>.\<close>

definition startswith :: "string \<Rightarrow> string \<Rightarrow> bool" where
  "startswith s p = (take (length p) s = p)"

text \<open>\<^verbatim>\<open>s.lower()\<close>, on the ASCII letters.\<close>

definition lower_char :: "char \<Rightarrow> char" where
  "lower_char c =
     (case map_of (zip ''ABCDEFGHIJKLMNOPQRSTUVWXYZ'' ''abcdefghijklmnopqrstuvwxyz'') c of
        Some d \<Rightarrow> d
      | None \<Rightarrow> c)"

definition lower :: "string \<Rightarrow> string" where
  "lower s = map lower_char s"

text \<open>
  \<^verbatim>\<open>s.strip()\<close>: removes leading and trailing whitespace, here the ASCII characters that
  Python counts as whitespace (tab to carriage return, the four separators, space).
\<close>

definition whitespace :: "char \<Rightarrow> bool" where
  "whitespace c =
     (c \<in> set [CHR 0x09, CHR 0x0A, CHR 0x0B, CHR 0x0C, CHR 0x0D,
               CHR 0x1C, CHR 0x1D, CHR 0x1E, CHR 0x1F, CHR 0x20])"

definition strip :: "string \<Rightarrow> string" where
  "strip s = rev (dropWhile whitespace (rev (dropWhile whitespace s)))"

text \<open>
  \<^verbatim>\<open>_get_indentation(string, indent=2)\<close>: the number of leading spaces
  (\<^verbatim>\<open>len(string) - len(string.lstrip(' '))\<close>), floor-divided by the default \<^verbatim>\<open>indent\<close>.
\<close>

definition get_indentation :: "string \<Rightarrow> nat" where
  "get_indentation string =
     (length string - length (dropWhile (\<lambda>c. c = CHR '' '') string)) div 2"

text \<open>
  \<^verbatim>\<open>rank.split('__', 1)\<close> unpacked into two names: the text before and after the
  leftmost \<^verbatim>\<open>__\<close>; \<open>None\<close> when there is no \<^verbatim>\<open>__\<close>, where the unpacking of the
  one-element list raises \<^verbatim>\<open>ValueError\<close>.
\<close>

fun split2 :: "string \<Rightarrow> (string \<times> string) option" where
  "split2 (a # b # cs) =
     (if a = CHR ''_'' \<and> b = CHR ''_'' then Some ([], cs)
      else (case split2 (b # cs) of None \<Rightarrow> None | Some (r, l) \<Rightarrow> Some (a # r, l)))"
| "split2 cs = None"

text \<open>\<^verbatim>\<open>sep.join(xs)\<close>.\<close>

fun join :: "string \<Rightarrow> string list \<Rightarrow> string" where
  "join sep [] = []"
| "join sep [x] = x"
| "join sep (x # y # ys) = x @ sep @ join sep (y # ys)"

section \<open>The taxonomy renderer: \<^verbatim>\<open>_pad_ranks\<close>\<close>

definition order :: "string list" where
  "order = [''d'', ''k'', ''p'', ''c'', ''o'', ''f'', ''g'', ''s'']"

text \<open>
  The first loop of \<^verbatim>\<open>_pad_ranks\<close>, over \<^verbatim>\<open>reversed(ranks)\<close>: it fills the dictionary
  \<^verbatim>\<open>available\<close> and appends every strain entry to \<^verbatim>\<open>taxonomy\<close>.
\<close>

fun scan_ranks ::
  "string list \<Rightarrow> (string \<rightharpoonup> string) \<Rightarrow> string list \<Rightarrow>
     error + ((string \<rightharpoonup> string) \<times> string list)" where
  "scan_ranks [] available taxonomy = Inr (available, taxonomy)"
| "scan_ranks (rank # rest) available taxonomy =
     (case split2 rank of
        None \<Rightarrow> Inl ValueError
      | Some (r, label) \<Rightarrow>
          scan_ranks rest (available(r \<mapsto> label))
            (if 1 < length r \<and> startswith r ''s'' then taxonomy @ [rank] else taxonomy))"

text \<open>
  The second loop, over \<^verbatim>\<open>reversed(order)\<close>. The local \<^verbatim>\<open>last_good_label\<close> is
  \<open>None\<close> while it is unbound; reading it then raises \<^verbatim>\<open>UnboundLocalError\<close>.
\<close>

fun pad_loop ::
  "string list \<Rightarrow> (string \<rightharpoonup> string) \<Rightarrow> string list \<Rightarrow> string option \<Rightarrow>
     error + string list" where
  "pad_loop [] available taxonomy last_good_label = Inr taxonomy"
| "pad_loop (r # rs) available taxonomy last_good_label =
     (case available r of
        Some label \<Rightarrow>
          pad_loop rs available (taxonomy @ [r @ ''__'' @ label]) (Some (r @ ''__'' @ label))
      | None \<Rightarrow>
          if taxonomy \<noteq> [] then
            (if r = ''k'' \<and> available ''d'' \<in> {Some ''Bacteria'', Some ''Archaea''} then
               (case available ''d'' of
                  None \<Rightarrow> pad_loop rs available taxonomy last_good_label
                | Some d \<Rightarrow> pad_loop rs available (taxonomy @ [''k__'' @ d]) last_good_label)
             else
               (case last_good_label of
                  None \<Rightarrow> Inl UnboundLocalError
                | Some g \<Rightarrow>
                    pad_loop rs available (taxonomy @ [r @ ''__containing '' @ g])
                      last_good_label))
          else pad_loop rs available taxonomy last_good_label)"

definition pad_ranks :: "string list \<Rightarrow> error + string" where
  "pad_ranks ranks =
     (case scan_ranks (rev ranks) Map.empty [] of
        Inl e \<Rightarrow> Inl e
      | Inr (available, taxonomy) \<Rightarrow>
          (case pad_loop (rev order) available taxonomy None of
             Inl e \<Rightarrow> Inl e
           | Inr taxonomy' \<Rightarrow> Inr (join '';'' (rev taxonomy'))))"

text \<open>An entry of the path that the first loop copies verbatim: a multi-character rank that starts with \<^verbatim>\<open>s\<close>.\<close>

definition strain_entry :: "string \<Rightarrow> bool" where
  "strain_entry rank =
     (case split2 rank of None \<Rightarrow> False | Some (r, l) \<Rightarrow> 1 < length r \<and> startswith r ''s'')"

section \<open>Report rows and tree nodes\<close>

text \<open>
  One row of a sample's report, with the four columns that \<^verbatim>\<open>select.py\<close> reads.
  \<open>row_ncbi_tax_id\<close> holds the text \<^verbatim>\<open>str(row['ncbi_tax_id'])\<close>, the only form in which
  the source uses the identifier.
\<close>

record row =
  row_rank :: string
  row_name :: string
  row_ncbi_tax_id :: string
  row_perc_frags_covered :: real

definition report_row :: "string \<Rightarrow> string \<Rightarrow> string \<Rightarrow> real \<Rightarrow> row" where
  "report_row r n i p =
     \<lparr>row_rank = r, row_name = n, row_ncbi_tax_id = i, row_perc_frags_covered = p\<rparr>"

text \<open>
  A node of the tree library (\<^verbatim>\<open>skbio.TreeNode\<close>) with the attributes the source uses:
  \<^verbatim>\<open>name\<close> and \<^verbatim>\<open>length\<close> (\<open>None\<close> when the constructor got none), the attribute
  \<^verbatim>\<open>is_actual_tip\<close> that the source adds to identifier nodes (\<open>None\<close> on a node that
  has no such attribute), and the ordered \<^verbatim>\<open>children\<close>. Python nodes are mutable objects
  held by reference (on the builder's stack, in lists of tips and ancestors), so every
  node carries its object identity \<open>ident\<close>, and a reference to a node is its \<open>ident\<close>.
  The library keeps every node under at most one parent, so the store of all nodes of
  one tree is the tree itself; \<^verbatim>\<open>node.parent\<close> is the position in it.
\<close>

datatype tree = TreeNode (ident: nat) (name: "string option") (len: "int option")
  (is_actual_tip: "bool option") (children: "tree list")

text \<open>Dereferencing: the node with identity \<open>j\<close>, searched in pre-order.\<close>

fun lookup :: "tree \<Rightarrow> nat \<Rightarrow> tree option"
  and lookup_list :: "tree list \<Rightarrow> nat \<Rightarrow> tree option" where
  "lookup (TreeNode i n l t cs) j = (if i = j then Some (TreeNode i n l t cs) else lookup_list cs j)"
| "lookup_list [] j = None"
| "lookup_list (c # cs) j = (case lookup c j of Some x \<Rightarrow> Some x | None \<Rightarrow> lookup_list cs j)"

text \<open>In-place mutation of the node with identity \<open>j\<close>.\<close>

fun modify :: "(tree \<Rightarrow> tree) \<Rightarrow> nat \<Rightarrow> tree \<Rightarrow> tree"
  and modify_list :: "(tree \<Rightarrow> tree) \<Rightarrow> nat \<Rightarrow> tree list \<Rightarrow> tree list" where
  "modify f j (TreeNode i n l t cs) =
     (if i = j then f (TreeNode i n l t cs) else TreeNode i n l t (modify_list f j cs))"
| "modify_list f j [] = []"
| "modify_list f j (c # cs) = modify f j c # modify_list f j cs"

text \<open>\<^verbatim>\<open>node.is_actual_tip = True\<close>.\<close>

definition set_tip :: "tree \<Rightarrow> tree" where
  "set_tip node = (case node of TreeNode i n l t cs \<Rightarrow> TreeNode i n l (Some True) cs)"

text \<open>\<^verbatim>\<open>node.children[0].is_actual_tip = True\<close>, on a node that has a child.\<close>

definition set_first_child_tip :: "tree \<Rightarrow> tree" where
  "set_first_child_tip node =
     (case node of
        TreeNode i n l t [] \<Rightarrow> TreeNode i n l t []
      | TreeNode i n l t (c # cs) \<Rightarrow> TreeNode i n l t (set_tip c # cs))"

text \<open>\<^verbatim>\<open>node.children.append(child)\<close>.\<close>

definition append_child :: "tree \<Rightarrow> tree \<Rightarrow> tree" where
  "append_child child node = (case node of TreeNode i n l t cs \<Rightarrow> TreeNode i n l t (cs @ [child]))"

text \<open>\<^verbatim>\<open>node.children\<close> of the node referred to by \<open>i\<close>.\<close>

definition children_of :: "tree \<Rightarrow> nat \<Rightarrow> tree list" where
  "children_of tree i = (case lookup tree i of None \<Rightarrow> [] | Some node \<Rightarrow> children node)"

section \<open>The single-sample tree builder: \<^verbatim>\<open>_kraken_to_ncbi_tree\<close>\<close>

text \<open>
  \<^verbatim>\<open>parent_node.children[0].is_actual_tip = True\<close>: indexing an empty list of children
  raises \<^verbatim>\<open>IndexError\<close>.
\<close>

definition mark_first_child :: "tree \<Rightarrow> nat \<Rightarrow> error + tree" where
  "mark_first_child tree parent_node =
     (if children_of tree parent_node = [] then Inl IndexError
      else Inr (modify set_first_child_tip parent_node tree))"

text \<open>
  \<^verbatim>\<open>parent_node.append(node)\<close> for a node that was just created and has no parent yet.
\<close>

definition append_node :: "tree \<Rightarrow> nat \<Rightarrow> tree \<Rightarrow> tree" where
  "append_node tree parent_node node = modify (append_child node) parent_node tree"

text \<open>
  The stack \<^verbatim>\<open>deque([(0, tree)])\<close> is a list of pairs (indentation, reference to node)
  whose head is the right end of the deque, so \<^verbatim>\<open>stack[-1]\<close> is the head and
  \<^verbatim>\<open>stack.pop()\<close> drops it. \<open>pop_loop\<close> is the loop
  \<^verbatim>\<open>while parent_indent >= indent: stack.pop(); parent_indent, parent_node = stack[-1]\<close>,
  with \<open>parent\<close> the pair read last; \<^verbatim>\<open>stack[-1]\<close> (and \<^verbatim>\<open>pop\<close>) on an empty deque
  raises \<^verbatim>\<open>IndexError\<close>.
\<close>

fun pop_loop ::
  "nat \<Rightarrow> nat \<times> nat \<Rightarrow> (nat \<times> nat) list \<Rightarrow> error + ((nat \<times> nat) \<times> (nat \<times> nat) list)" where
  "pop_loop indent parent [] = (if indent \<le> fst parent then Inl IndexError else Inr (parent, []))"
| "pop_loop indent parent [x] = (if indent \<le> fst parent then Inl IndexError else Inr (parent, [x]))"
| "pop_loop indent parent (x # y # stack) =
     (if indent \<le> fst parent then pop_loop indent y (y # stack) else Inr (parent, x # y # stack))"

text \<open>
  The test that makes the loop \<^verbatim>\<open>continue\<close>:
  \<^verbatim>\<open>r in ('U', 'R') or (len(r) > 1 and not r.startswith('S'))\<close>.
\<close>

definition skipped :: "string \<Rightarrow> bool" where
  "skipped r = (r = ''U'' \<or> r = ''R'' \<or> (1 < length r \<and> \<not> startswith r ''S''))"

text \<open>
  The state of the builder: the tree under construction, the stack, and the identity that
  the next created node gets.
\<close>

type_synonym builder = "tree \<times> (nat \<times> nat) list \<times> nat"

text \<open>The body of the loop for a row that is not skipped.\<close>

definition process_row :: "builder \<Rightarrow> row \<Rightarrow> error + builder" where
  "process_row st row =
     (case st of (tree, stack, fresh) \<Rightarrow>
        let r = row_rank row; label = row_name row; otu = row_ncbi_tax_id row;
            indent = get_indentation label;
            name = lower r @ ''__'' @ strip label;
            id_node = TreeNode (fresh + 1) (Some otu) (Some 0) (Some False) [];
            node = TreeNode fresh (Some name) (Some 1) None [id_node]
        in (case stack of
              [] \<Rightarrow> Inl IndexError
            | (parent_indent, parent_node) # _ \<Rightarrow>
                (case (if indent \<le> parent_indent then mark_first_child tree parent_node
                       else Inr tree) of
                   Inl e \<Rightarrow> Inl e
                 | Inr tree' \<Rightarrow>
                     (case pop_loop indent (parent_indent, parent_node) stack of
                        Inl e \<Rightarrow> Inl e
                      | Inr ((parent_indent', parent_node'), stack') \<Rightarrow>
                          Inr (append_node tree' parent_node' node,
                               (indent, fresh) # stack', fresh + 2)))))"

fun process_rows :: "builder \<Rightarrow> row list \<Rightarrow> error + builder" where
  "process_rows st [] = Inr st"
| "process_rows st (row # df) =
     (if skipped (row_rank row) then process_rows st df
      else (case process_row st row of Inl e \<Rightarrow> Inl e | Inr st' \<Rightarrow> process_rows st' df))"

text \<open>\<^verbatim>\<open>tree = skbio.TreeNode(); stack = deque([(0, tree)])\<close>.\<close>

definition initial_builder :: "nat \<Rightarrow> builder" where
  "initial_builder fresh = (TreeNode fresh None None None [], [(0, fresh)], fresh + 1)"

text \<open>
  \<^verbatim>\<open>_kraken_to_ncbi_tree(df)\<close>. The first argument is the identity of the first node
  created; the result holds the tree and the next unused identity.
\<close>

definition kraken_to_ncbi_tree :: "nat \<Rightarrow> row list \<Rightarrow> error + (tree \<times> nat)" where
  "kraken_to_ncbi_tree fresh df =
     (case process_rows (initial_builder fresh) df of
        Inl e \<Rightarrow> Inl e
      | Inr (tree, stack, fresh') \<Rightarrow>
          (case stack of
             [] \<Rightarrow> Inl IndexError
           | (_, parent_node) # _ \<Rightarrow>
               if children_of tree parent_node \<noteq> []
               then Inr (modify set_first_child_tip parent_node tree, fresh')
               else Inr (tree, fresh')))"

section \<open>Observations on trees and builder states\<close>

text \<open>
  The nodes of a tree in pre-order, each with its own attributes
  (identity, name, length, \<^verbatim>\<open>is_actual_tip\<close>).
\<close>

fun pre :: "tree \<Rightarrow> (nat \<times> string option \<times> int option \<times> bool option) list"
  and pre_list :: "tree list \<Rightarrow> (nat \<times> string option \<times> int option \<times> bool option) list" where
  "pre (TreeNode i n l t cs) = (i, n, l, t) # pre_list cs"
| "pre_list [] = []"
| "pre_list (c # cs) = pre c @ pre_list cs"

text \<open>The names of the nodes in pre-order.\<close>

definition node_names :: "tree \<Rightarrow> string option list" where
  "node_names tree = map (\<lambda>(i, n, l, t). n) (pre tree)"

text \<open>The identities along the path from the root through the last child of each node.\<close>

fun spine :: "tree \<Rightarrow> nat list"
  and spine_list :: "tree list \<Rightarrow> nat list" where
  "spine (TreeNode i n l t cs) = i # spine_list cs"
| "spine_list [] = []"
| "spine_list [c] = spine c"
| "spine_list (c # d # cs) = spine_list (d # cs)"

text \<open>Setting \<^verbatim>\<open>is_actual_tip = True\<close> in the pre-order entry of the node \<open>j\<close>.\<close>

definition set_flag ::
  "nat \<Rightarrow> nat \<times> string option \<times> int option \<times> bool option \<Rightarrow>
     nat \<times> string option \<times> int option \<times> bool option" where
  "set_flag j e = (case e of (i, n, l, t) \<Rightarrow> if i = j then (i, n, l, Some True) else (i, n, l, t))"

text \<open>The pre-order entries of the rank node and the identifier node created for a row.\<close>

definition new_entries ::
  "nat \<Rightarrow> row \<Rightarrow> (nat \<times> string option \<times> int option \<times> bool option) list" where
  "new_entries fresh row =
     [(fresh, Some (lower (row_rank row) @ ''__'' @ strip (row_name row)), Some 1, None),
      (fresh + 1, Some (row_ncbi_tax_id row), Some 0, Some False)]"

text \<open>The names of these two nodes.\<close>

definition row_names :: "row \<Rightarrow> string option list" where
  "row_names row =
     [Some (lower (row_rank row) @ ''__'' @ strip (row_name row)), Some (row_ncbi_tax_id row)]"

text \<open>The rows for which the loop body runs.\<close>

definition kept_rows :: "row list \<Rightarrow> row list" where
  "kept_rows df = filter (\<lambda>row. \<not> skipped (row_rank row)) df"

text \<open>
  The invariant of the builder's loop: identities are distinct and below the next fresh
  one, the bottom of the stack is the sentinel of indentation 0, the stack is an initial
  part of the path through the last children, and the node on top of a stack of more than
  one entry is the rank node created last, with its identifier node as only child.
\<close>

definition builder_inv :: "builder \<Rightarrow> bool" where
  "builder_inv st =
     (case st of (tree, stack, fresh) \<Rightarrow>
        distinct (map fst (pre tree)) \<and> (\<forall>i\<in>fst ` set (pre tree). i < fresh) \<and>
        stack \<noteq> [] \<and> fst (last stack) = 0 \<and>
        (\<exists>tail. spine tree = rev (map snd stack) @ tail) \<and>
        (case stack of
           [] \<Rightarrow> False
         | (d, i) # rest \<Rightarrow>
             if rest = [] then children_of tree i = []
             else (\<exists>n otu. lookup tree i =
                     Some (TreeNode i n (Some 1) None
                            [TreeNode (i + 1) otu (Some 0) (Some False) []]))))"

section \<open>The tree library: traversal and search by name\<close>

text \<open>
  \<^verbatim>\<open>node.postorder()\<close>: the nodes of a tree, children before their parent, left to right.
\<close>

fun postorder :: "tree \<Rightarrow> tree list"
  and postorder_list :: "tree list \<Rightarrow> tree list" where
  "postorder (TreeNode i n l t cs) = postorder_list cs @ [TreeNode i n l t cs]"
| "postorder_list [] = []"
| "postorder_list (c # cs) = postorder c @ postorder_list cs"

text \<open>\<^verbatim>\<open>node.is_tip()\<close>: the node has no children.\<close>

definition is_tip :: "tree \<Rightarrow> bool" where
  "is_tip node = (children node = [])"

text \<open>
  \<^verbatim>\<open>tree.tips()\<close>: the tips in post-order, the node \<^verbatim>\<open>tree\<close> itself left out
  (\<^verbatim>\<open>include_self=False\<close>).
\<close>

definition tips :: "tree \<Rightarrow> tree list" where
  "tips tree = filter is_tip (postorder_list (children tree))"

text \<open>
  \<^verbatim>\<open>node.find(name)\<close>, called on a node of the tree with root \<open>tree\<close>. The library
  searches from the root of the node's tree, whatever node it is called on. It first
  builds the caches in post-order (they are dropped at every \<^verbatim>\<open>append\<close>): a dictionary of
  the named tips, which raises \<^verbatim>\<open>DuplicateNodeError\<close> when two tips have the same name,
  and the lists of named nodes that are not tips. The result is the tip of that name, or
  else the first node of that name that is not a tip, or else \<^verbatim>\<open>MissingNodeError\<close>. A
  node without a name is in no cache, and the name \<^verbatim>\<open>None\<close> is never found.
\<close>

definition named_tips :: "tree \<Rightarrow> tree list" where
  "named_tips tree = filter (\<lambda>node. is_tip node \<and> name node \<noteq> None) (postorder tree)"

definition find_node :: "tree \<Rightarrow> string option \<Rightarrow> error + nat" where
  "find_node tree nm =
     (if \<not> distinct (map name (named_tips tree)) then Inl DuplicateNodeError
      else
        (case List.find (\<lambda>node. nm \<noteq> None \<and> name node = nm) (filter is_tip (postorder tree)) of
           Some node \<Rightarrow> Inr (ident node)
         | None \<Rightarrow>
             (case List.find (\<lambda>node. nm \<noteq> None \<and> name node = nm)
                     (filter (\<lambda>node. \<not> is_tip node) (postorder tree)) of
                Some node \<Rightarrow> Inr (ident node)
              | None \<Rightarrow> Inl MissingNodeError)))"

section \<open>The tree merger: \<^verbatim>\<open>_combine_ncbi_trees\<close>\<close>

text \<open>
  While one tree of \<^verbatim>\<open>trees[1:]\<close> is merged, the nodes in play are those of
  \<^verbatim>\<open>full_tree\<close> and of \<^verbatim>\<open>tree\<close>; the state is this pair. A reference to a node is
  resolved in \<^verbatim>\<open>tree\<close> first and in \<^verbatim>\<open>full_tree\<close> otherwise: the two trees are built
  from different objects, so no identity is in both.
\<close>

type_synonym forest = "tree \<times> tree"

definition deref :: "forest \<Rightarrow> nat \<Rightarrow> tree option" where
  "deref st i =
     (case lookup (snd st) i of Some node \<Rightarrow> Some node | None \<Rightarrow> lookup (fst st) i)"

text \<open>\<^verbatim>\<open>node.name\<close> through a reference.\<close>

definition name_of :: "forest \<Rightarrow> nat \<Rightarrow> string option" where
  "name_of st i = (case deref st i of None \<Rightarrow> None | Some node \<Rightarrow> name node)"

text \<open>The identities from the root of a tree down to the parent of the node \<open>j\<close>.\<close>

fun path_to :: "nat \<Rightarrow> tree \<Rightarrow> nat list option"
  and path_to_list :: "nat \<Rightarrow> tree list \<Rightarrow> nat list option" where
  "path_to j (TreeNode i n l t cs) =
     (if i = j then Some [] else (case path_to_list j cs of None \<Rightarrow> None | Some p \<Rightarrow> Some (i # p)))"
| "path_to_list j [] = None"
| "path_to_list j (c # cs) = (case path_to j c of Some p \<Rightarrow> Some p | None \<Rightarrow> path_to_list j cs)"

text \<open>\<^verbatim>\<open>node.ancestors()\<close>: the parent first, the root last.\<close>

definition ancestors :: "forest \<Rightarrow> nat \<Rightarrow> nat list" where
  "ancestors st j =
     (case path_to j (snd st) of
        Some p \<Rightarrow> rev p
      | None \<Rightarrow> (case path_to j (fst st) of Some p \<Rightarrow> rev p | None \<Rightarrow> []))"

text \<open>\<^verbatim>\<open>node.parent.remove(node)\<close>: the node \<open>j\<close> leaves the list of children it is in.\<close>

fun detach :: "nat \<Rightarrow> tree \<Rightarrow> tree"
  and detach_list :: "nat \<Rightarrow> tree list \<Rightarrow> tree list" where
  "detach j (TreeNode i n l t cs) = TreeNode i n l t (detach_list j cs)"
| "detach_list j [] = []"
| "detach_list j (c # cs) = (if ident c = j then cs else detach j c # detach_list j cs)"

text \<open>
  \<^verbatim>\<open>matching.append(node)\<close>, where \<open>matching\<close> is a node of \<^verbatim>\<open>full_tree\<close>. The library
  first removes the node, with everything below it, from its parent, and then makes it
  the last child of \<open>matching\<close>.
\<close>

definition append_to :: "forest \<Rightarrow> nat \<Rightarrow> nat \<Rightarrow> forest" where
  "append_to st matching node =
     (case deref st node of
        None \<Rightarrow> st
      | Some sub \<Rightarrow>
          (modify (append_child sub) matching (detach node (fst st)), detach node (snd st)))"

text \<open>
  The loop \<^verbatim>\<open>while parents: node = parents.pop() ...\<close>. \<^verbatim>\<open>pop()\<close> takes the last element
  of \<^verbatim>\<open>parents\<close>, so the argument here is the list in the order of the pops, the
  ancestor nearest to the root first. Only \<^verbatim>\<open>MissingNodeError\<close> is caught.
\<close>

fun walk :: "forest \<Rightarrow> nat \<Rightarrow> nat list \<Rightarrow> error + forest" where
  "walk st matching [] = Inr st"
| "walk st matching (node # parents) =
     (case find_node (fst st) (name_of st node) of
        Inr found \<Rightarrow> walk st found parents
      | Inl e \<Rightarrow>
          if e = MissingNodeError then walk (append_to st matching node) matching parents
          else Inl e)"

text \<open>
  The loop \<^verbatim>\<open>for tip in list(tree.tips())\<close> over the references taken before the loop
  starts. \<^verbatim>\<open>parents = list(tip.ancestors())[:-1]\<close> drops the root.
\<close>

fun merge_tips :: "forest \<Rightarrow> nat list \<Rightarrow> error + forest" where
  "merge_tips st [] = Inr st"
| "merge_tips st (tip # rest) =
     (case find_node (fst st) (name_of st tip) of
        Inr found \<Rightarrow> merge_tips st rest
      | Inl e \<Rightarrow>
          if e = MissingNodeError then
            (case walk st (ident (fst st)) (rev (butlast (ancestors st tip))) of
               Inl e' \<Rightarrow> Inl e'
             | Inr st' \<Rightarrow> merge_tips st' rest)
          else Inl e)"

text \<open>The loop \<^verbatim>\<open>for tree in trees[1:]\<close>.\<close>

fun merge_trees :: "tree \<Rightarrow> tree list \<Rightarrow> error + tree" where
  "merge_trees full_tree [] = Inr full_tree"
| "merge_trees full_tree (tree # trees) =
     (case merge_tips (full_tree, tree) (map ident (tips tree)) of
        Inl e \<Rightarrow> Inl e
      | Inr st \<Rightarrow> merge_trees (fst st) trees)"

text \<open>\<^verbatim>\<open>_combine_ncbi_trees(trees)\<close>; \<^verbatim>\<open>trees[0]\<close> of an empty list raises \<^verbatim>\<open>IndexError\<close>.\<close>

definition combine_ncbi_trees :: "tree list \<Rightarrow> error + tree" where
  "combine_ncbi_trees trees =
     (case trees of [] \<Rightarrow> Inl IndexError | full_tree # rest \<Rightarrow> merge_trees full_tree rest)"

text \<open>
  The walk as the specification words it: after the first ancestor that is absent has been
  appended, the walk stops.
\<close>

fun walk_stop :: "forest \<Rightarrow> nat \<Rightarrow> nat list \<Rightarrow> error + forest" where
  "walk_stop st matching [] = Inr st"
| "walk_stop st matching (node # parents) =
     (case find_node (fst st) (name_of st node) of
        Inr found \<Rightarrow> walk_stop st found parents
      | Inl e \<Rightarrow>
          if e = MissingNodeError then Inr (append_to st matching node)
          else Inl e)"

section \<open>Tips, taxonomy and the entry point\<close>

text \<open>
  \<^verbatim>\<open>_ncbi_tree_to_tips(tree)\<close>: reading \<^verbatim>\<open>is_actual_tip\<close> on a tip that has no such
  attribute raises \<^verbatim>\<open>AttributeError\<close>.
\<close>

fun actual_tips :: "tree list \<Rightarrow> error + string option list" where
  "actual_tips [] = Inr []"
| "actual_tips (n # ns) =
     (case is_actual_tip n of
        None \<Rightarrow> Inl AttributeError
      | Some b \<Rightarrow>
          (case actual_tips ns of
             Inl e \<Rightarrow> Inl e
           | Inr names \<Rightarrow> Inr (if b then name n # names else names)))"

definition ncbi_tree_to_tips :: "tree \<Rightarrow> error + string option list" where
  "ncbi_tree_to_tips tree = actual_tips (tips tree)"

text \<open>
  \<^verbatim>\<open>tree.to_taxonomy()\<close> of the library: for every tip, in traversal order, the tip and the
  names of its ancestors from the root down; a node whose name is \<^verbatim>\<open>None\<close> or empty adds
  nothing to the lineage.
\<close>

fun tree_to_taxonomy :: "string list \<Rightarrow> tree \<Rightarrow> (string option \<times> string list) list"
  and tree_to_taxonomy_list :: "string list \<Rightarrow> tree list \<Rightarrow> (string option \<times> string list) list" where
  "tree_to_taxonomy lineage (TreeNode i n l t cs) =
     (if cs = [] then [(n, lineage)]
      else tree_to_taxonomy_list
             (case n of None \<Rightarrow> lineage | Some s \<Rightarrow> if s = [] then lineage else lineage @ [s]) cs)"
| "tree_to_taxonomy_list lineage [] = []"
| "tree_to_taxonomy_list lineage (c # cs) =
     tree_to_taxonomy lineage c @ tree_to_taxonomy_list lineage cs"

text \<open>
  \<^verbatim>\<open>_to_taxonomy(tree)\<close>: the rows \<^verbatim>\<open>(node.name, _pad_ranks(ranks))\<close> of the taxonomy
  table, indexed by the first component.
\<close>

fun taxonomy_rows :: "(string option \<times> string list) list \<Rightarrow> error + (string option \<times> string) list" where
  "taxonomy_rows [] = Inr []"
| "taxonomy_rows ((nm, ranks) # rest) =
     (case pad_ranks ranks of
        Inl e \<Rightarrow> Inl e
      | Inr taxon \<Rightarrow>
          (case taxonomy_rows rest of Inl e \<Rightarrow> Inl e | Inr rows \<Rightarrow> Inr ((nm, taxon) # rows)))"

definition to_taxonomy :: "tree \<Rightarrow> error + (string option \<times> string) list" where
  "to_taxonomy tree = taxonomy_rows (tree_to_taxonomy [] tree)"

text \<open>
  The loop of \<^verbatim>\<open>select_kraken_features\<close> over the reports, each a sample identifier with
  the rows of its report. It returns the rows of the feature table (a sample with the
  names of its actual tips, only for samples that have one) and the trees. The identity
  of the next node to create is passed along, so that all trees are made of different
  objects.
\<close>

fun build_samples ::
  "nat \<Rightarrow> real \<Rightarrow> (string \<times> row list) list \<Rightarrow>
     error + ((string \<times> string option list) list \<times> tree list)" where
  "build_samples fresh coverage_threshold [] = Inr ([], [])"
| "build_samples fresh coverage_threshold ((sample_id, df) # reports) =
     (case kraken_to_ncbi_tree fresh
             (filter (\<lambda>row. coverage_threshold \<le> row_perc_frags_covered row) df) of
        Inl e \<Rightarrow> Inl e
      | Inr (tree, fresh') \<Rightarrow>
          (case ncbi_tree_to_tips tree of
             Inl e \<Rightarrow> Inl e
           | Inr tip_names \<Rightarrow>
               (case build_samples fresh' coverage_threshold reports of
                  Inl e \<Rightarrow> Inl e
                | Inr (rows, trees) \<Rightarrow>
                    Inr ((if tip_names \<noteq> [] then [(sample_id, tip_names)] else []) @ rows,
                         tree # trees))))"

text \<open>
  \<^verbatim>\<open>select_kraken_features(reports, coverage_threshold)\<close>. The result holds the rows of
  the feature table, the taxonomy table and the merged tree; filling the table with
  \<^verbatim>\<open>False\<close> and writing the tree as Newick are left to the libraries.
\<close>

definition select_kraken_features ::
  "(string \<times> row list) list \<Rightarrow> real \<Rightarrow>
     error + ((string \<times> string option list) list \<times> (string option \<times> string) list \<times> tree)" where
  "select_kraken_features reports coverage_threshold =
     (case build_samples 0 coverage_threshold reports of
        Inl e \<Rightarrow> Inl e
      | Inr (rows, trees) \<Rightarrow>
          (case combine_ncbi_trees trees of
             Inl e \<Rightarrow> Inl e
           | Inr full_tree \<Rightarrow>
               (case to_taxonomy full_tree of
                  Inl e \<Rightarrow> Inl e
                | Inr taxonomy \<Rightarrow> Inr (rows, taxonomy, full_tree))))"

section \<open>Structure of a tree without object identities\<close>

text \<open>
  Two trees are structurally identical when they agree after all identities are set to 0:
  the same names, lengths, \<^verbatim>\<open>is_actual_tip\<close> attributes and children in the same order.
\<close>

fun erase :: "tree \<Rightarrow> tree"
  and erase_list :: "tree list \<Rightarrow> tree list" where
  "erase (TreeNode i n l t cs) = TreeNode 0 n l t (erase_list cs)"
| "erase_list [] = []"
| "erase_list (c # cs) = erase c # erase_list cs"

section \<open>The place of a row's node in the tree\<close>

text \<open>\<^verbatim>\<open>node.parent\<close> for the node \<open>j\<close> of a tree: \<open>None\<close> for the root and for a node that is not in the tree.\<close>

definition parent_of :: "nat \<Rightarrow> tree \<Rightarrow> nat option" where
  "parent_of j tree =
     (case path_to j tree of None \<Rightarrow> None | Some p \<Rightarrow> if p = [] then None else Some (last p))"

text \<open>
  The parents that the nodes of a list of kept rows are expected to have. \<open>earlier\<close> holds
  the rank nodes made so far, the nearest first and the root last, each as a pair of the
  indentation of its row and its identity; the root counts with indentation 0. The rank
  node of a row, which gets the identity \<open>fresh\<close>, hangs under the nearest earlier node of
  smaller indentation, and its identifier node, which gets \<open>fresh + 1\<close>, hangs under the
  rank node.
\<close>

fun expected_parents :: "(nat \<times> nat) list \<Rightarrow> nat \<Rightarrow> row list \<Rightarrow> nat option list" where
  "expected_parents earlier fresh [] = []"
| "expected_parents earlier fresh (row # rows) =
     map_option snd (List.find (\<lambda>x. fst x < get_indentation (row_name row)) earlier) #
     Some fresh #
     expected_parents ((get_indentation (row_name row), fresh) # earlier) (fresh + 2) rows"

section \<open>Well-formed merge states\<close>

text \<open>
  The states of the merger that arise from trees of the builder: \<^verbatim>\<open>full_tree\<close> and
  \<^verbatim>\<open>tree\<close> are made of different objects, and every node below either root has a name.
\<close>

definition forest_wf :: "forest \<Rightarrow> bool" where
  "forest_wf st =
     (distinct (map fst (pre (fst st)) @ map fst (pre (snd st))) \<and>
      (\<forall>node\<in>set (postorder_list (children (fst st))). name node \<noteq> None) \<and>
      (\<forall>node\<in>set (postorder_list (children (snd st))). name node \<noteq> None))"

section \<open>Properties of the taxonomy renderer\<close>

lemma scan_ranks_Inr:
  "map split2 xs = map Some es \<Longrightarrow>
   scan_ranks xs av tx =
     Inr (fold (\<lambda>(r, l) a. a(r \<mapsto> l)) es av, tx @ filter strain_entry xs)"
proof (induction xs arbitrary: es av tx)
  case Nil
  then show ?case by simp
next
  case (Cons x xs)
  then obtain e es' where es: "es = e # es'" by (cases es) auto
  obtain r l where e: "e = (r, l)" by (cases e)
  from Cons.prems es e have sp: "split2 x = Some (r, l)" and rest: "map split2 xs = map Some es'"
    by auto
  show ?case using Cons.IH[OF rest] sp es e by (simp add: strain_entry_def)
qed

lemma scan_ranks_Inl:
  "\<nexists>es. map split2 xs = map Some es \<Longrightarrow> scan_ranks xs av tx = Inl ValueError"
proof (induction xs arbitrary: av tx)
  case Nil
  then show ?case by simp
next
  case (Cons x xs)
  show ?case
  proof (cases "split2 x")
    case None
    then show ?thesis by simp
  next
    case (Some e)
    obtain r l where e: "e = (r, l)" by (cases e)
    have "\<nexists>es. map split2 xs = map Some es"
    proof
      assume "\<exists>es. map split2 xs = map Some es"
      then obtain es where "map split2 xs = map Some es" ..
      then have "map split2 (x # xs) = map Some (e # es)" using Some by simp
      with Cons.prems show False by blast
    qed
    from Cons.IH[OF this] show ?thesis using Some e by simp
  qed
qed

lemma fold_upd_rev: "fold (\<lambda>(r, l) a. a(r \<mapsto> l)) (rev es) Map.empty = map_of es"
  by (induction es) (auto)

lemma strain_entry_entries:
  "map split2 ranks = map Some entries \<Longrightarrow>
   (\<exists>x\<in>set ranks. strain_entry x) = (\<exists>(r, l)\<in>set entries. 1 < length r \<and> startswith r ''s'')"
proof (induction ranks arbitrary: entries)
  case Nil
  then show ?case by simp
next
  case (Cons x xs)
  then obtain e es' where es: "entries = e # es'" by (cases entries) auto
  obtain r l where e: "e = (r, l)" by (cases e)
  from Cons.prems es e have sp: "split2 x = Some (r, l)" and rest: "map split2 xs = map Some es'"
    by auto
  show ?case using Cons.IH[OF rest] sp es e by (simp add: strain_entry_def)
qed

lemma scan_ranks_rev:
  assumes "map split2 ranks = map Some entries"
  shows "\<exists>strains. scan_ranks (rev ranks) Map.empty [] = Inr (map_of entries, strains) \<and>
           (strains \<noteq> [] \<longleftrightarrow> (\<exists>(r, l)\<in>set entries. 1 < length r \<and> startswith r ''s''))"
proof -
  from assms have "map split2 (rev ranks) = map Some (rev entries)"
    by (metis rev_map)
  from scan_ranks_Inr[OF this, of Map.empty "[]"]
  have s: "scan_ranks (rev ranks) Map.empty [] = Inr (map_of entries, filter strain_entry (rev ranks))"
    by (simp add: fold_upd_rev)
  have "filter strain_entry (rev ranks) \<noteq> [] \<longleftrightarrow> (\<exists>x\<in>set ranks. strain_entry x)"
    by (simp add: filter_empty_conv)
  with s strain_entry_entries[OF assms] show ?thesis by simp
qed

lemma pad_loop_bound_no_error:
  "(taxonomy \<noteq> [] \<longrightarrow> lgl \<noteq> None) \<Longrightarrow> \<exists>out. pad_loop rs available taxonomy lgl = Inr out"
proof (induction rs arbitrary: taxonomy lgl)
  case Nil
  then show ?case by simp
next
  case (Cons r rs)
  show ?case
  proof (cases "available r")
    case (Some label)
    have "\<exists>out. pad_loop rs available (taxonomy @ [r @ ''__'' @ label]) (Some (r @ ''__'' @ label)) = Inr out"
      by (rule Cons.IH) simp
    then show ?thesis using Some by simp
  next
    case None
    show ?thesis
    proof (cases "taxonomy = []")
      case True
      have "\<exists>out. pad_loop rs available taxonomy lgl = Inr out"
        by (rule Cons.IH) (simp add: True)
      then show ?thesis using None True by simp
    next
      case False
      with Cons.prems obtain g where g: "lgl = Some g" by auto
      have a: "\<And>x. \<exists>out. pad_loop rs available (taxonomy @ [x]) lgl = Inr out"
        by (rule Cons.IH) (simp add: g)
      have b: "\<exists>out. pad_loop rs available taxonomy lgl = Inr out"
        by (rule Cons.IH) (simp add: g)
      show ?thesis using None False g a b by (auto split: option.splits)
    qed
  qed
qed

lemma pad_loop_order_unbound:
  "(pad_loop (rev order) available taxonomy None = Inl UnboundLocalError) =
     (available ''s'' = None \<and> taxonomy \<noteq> [])"
proof -
  obtain rs where ro: "rev order = ''s'' # rs" by (simp add: order_def)
  note step = pad_loop.simps(2)[of "''s''" rs available taxonomy None]
  show ?thesis
  proof (cases "available ''s''")
    case (Some label)
    have "\<exists>out. pad_loop rs available (taxonomy @ [''s'' @ ''__'' @ label]) (Some (''s'' @ ''__'' @ label)) = Inr out"
      by (rule pad_loop_bound_no_error) simp
    then show ?thesis unfolding ro step using Some by auto
  next
    case None
    show ?thesis
    proof (cases "taxonomy = []")
      case True
      have "\<exists>out. pad_loop rs available taxonomy None = Inr out"
        by (rule pad_loop_bound_no_error) (simp add: True)
      then show ?thesis unfolding ro step using None True by auto
    next
      case False
      then show ?thesis unfolding ro step using None by simp
    qed
  qed
qed

lemma pad_loop_kd:
  assumes "av ''k'' = None" and "av ''d'' = Some d" and "d = ''Bacteria'' \<or> d = ''Archaea''"
    and "''k'' \<notin> set front" and "''d'' \<notin> set front"
    and "tx \<noteq> [] \<or> (\<exists>r\<in>set front. av r \<noteq> None)"
    and "pad_loop (front @ [''k'', ''d'']) av tx lgl = Inr out"
  shows "\<exists>mid. mid \<noteq> [] \<and> out = mid @ [''k__'' @ d, ''d__'' @ d]"
  using assms(4-)
proof (induction front arbitrary: tx lgl)
  case Nil
  then have "tx \<noteq> []" by simp
  with Nil assms(1-3) have "out = tx @ [''k__'' @ d, ''d__'' @ d]"
    by auto
  with \<open>tx \<noteq> []\<close> show ?case by blast
next
  case (Cons r front)
  from Cons.prems have rk: "r \<noteq> ''k''" and kp: "''k'' \<notin> set front" and dp: "''d'' \<notin> set front"
    by auto
  show ?case
  proof (cases "av r")
    case (Some label)
    with Cons.prems have run: "pad_loop (front @ [''k'', ''d'']) av (tx @ [r @ ''__'' @ label]) (Some (r @ ''__'' @ label)) = Inr out"
      by simp
    show ?thesis by (rule Cons.IH[OF kp dp _ run]) simp
  next
    case None
    show ?thesis
    proof (cases "tx = []")
      case True
      with None Cons.prems have run: "pad_loop (front @ [''k'', ''d'']) av tx lgl = Inr out"
        by simp
      from None Cons.prems(3) True have "\<exists>r\<in>set front. av r \<noteq> None" by auto
      then show ?thesis using Cons.IH[OF kp dp _ run] by blast
    next
      case False
      with None Cons.prems rk obtain g where
        run: "pad_loop (front @ [''k'', ''d'']) av (tx @ [r @ ''__containing '' @ g]) lgl = Inr out"
        by (auto split: option.splits)
      show ?thesis by (rule Cons.IH[OF kp dp _ run]) simp
    qed
  qed
qed

lemma join_rev_two:
  "mid \<noteq> [] \<Longrightarrow> join sep (rev (mid @ [a, b])) = b @ sep @ a @ sep @ join sep (rev mid)"
  by (cases "rev mid") auto

lemma pad_loop_order_returns:
  assumes "available ''s'' \<noteq> None \<or> taxonomy = []"
  shows "\<exists>out. pad_loop (rev order) available taxonomy None = Inr out"
proof -
  obtain rs where ro: "rev order = ''s'' # rs" by (simp add: order_def)
  note step = pad_loop.simps(2)[of "''s''" rs available taxonomy None]
  show ?thesis
  proof (cases "available ''s''")
    case (Some label)
    have "\<exists>out. pad_loop rs available (taxonomy @ [''s'' @ ''__'' @ label]) (Some (''s'' @ ''__'' @ label)) = Inr out"
      by (rule pad_loop_bound_no_error) simp
    then show ?thesis unfolding ro step using Some by auto
  next
    case None
    with assms have "taxonomy = []" by simp
    then show ?thesis by (intro pad_loop_bound_no_error) simp
  qed
qed

text \<open>
  Claim C7 as stated fails: in the path \<^verbatim>\<open>['d__Bacteria', 's1__X']\<close> the rank \<^verbatim>\<open>k\<close> is
  absent, \<^verbatim>\<open>d\<close> is labelled \<^verbatim>\<open>Bacteria\<close> and the strain entry has produced output, but no
  string is rendered: the scan starts at \<^verbatim>\<open>s\<close>, which is absent, and the \<^verbatim>\<open>containing\<close>
  step reads \<^verbatim>\<open>last_good_label\<close> before any assignment. The same happens with a genus
  between the two entries.
\<close>

theorem pad_ranks_kingdom_slot_not_reached:
  "pad_ranks [''d__Bacteria'', ''s1__X''] = Inl UnboundLocalError \<and>
   pad_ranks [''d__Bacteria'', ''g__G'', ''s1__X''] = Inl UnboundLocalError"
  by (simp add: pad_ranks_def startswith_def order_def)

text \<open>
  Claim C7, amended. Let the path parse into \<open>entries\<close> (rank, label), with no \<^verbatim>\<open>k\<close> entry
  and with \<^verbatim>\<open>d\<close> labelled \<^verbatim>\<open>Bacteria\<close> or \<^verbatim>\<open>Archaea\<close>. Let it have an \<^verbatim>\<open>s\<close> entry, or
  else no strain entry and one of the ranks \<^verbatim>\<open>g, f, o, c, p\<close>. Then \<^verbatim>\<open>_pad_ranks\<close> returns
  a string, and the string starts with the domain, followed by \<^verbatim>\<open>k__\<close> and the domain's
  label verbatim in the kingdom slot, not a \<^verbatim>\<open>containing\<close> placeholder.
\<close>

theorem pad_ranks_kingdom_mirrors_domain:
  assumes "map split2 ranks = map Some entries"
    and "''k'' \<notin> fst ` set entries"
    and "map_of entries ''d'' = Some d"
    and "d = ''Bacteria'' \<or> d = ''Archaea''"
    and "''s'' \<in> fst ` set entries \<or>
         ((\<exists>r\<in>set [''g'', ''f'', ''o'', ''c'', ''p'']. r \<in> fst ` set entries) \<and>
          \<not> (\<exists>(r, l)\<in>set entries. 1 < length r \<and> startswith r ''s''))"
  shows "\<exists>rest. pad_ranks ranks = Inr (''d__'' @ d @ '';k__'' @ d @ '';'' @ rest)"
proof -
  from scan_ranks_rev[OF assms(1)] obtain strains where
    sc: "scan_ranks (rev ranks) Map.empty [] = Inr (map_of entries, strains)" and
    st: "strains \<noteq> [] \<longleftrightarrow> (\<exists>(r, l)\<in>set entries. 1 < length r \<and> startswith r ''s'')"
    by blast
  let ?front = "[''s'', ''g'', ''f'', ''o'', ''c'', ''p'']"
  have ro: "rev order = ?front @ [''k'', ''d'']" by (simp add: order_def)
  have "map_of entries ''s'' \<noteq> None \<or> strains = []"
    using assms(5) st by (auto simp: map_of_eq_None_iff)
  from pad_loop_order_returns[of "map_of entries" strains, OF this] obtain t where
    pl: "pad_loop (?front @ [''k'', ''d'']) (map_of entries) strains None = Inr t"
    unfolding ro by blast
  then have out: "pad_ranks ranks = Inr (join '';'' (rev t))"
    unfolding pad_ranks_def ro by (simp add: sc)
  have k: "map_of entries ''k'' = None" using assms(2) by (simp add: map_of_eq_None_iff)
  have nonempty: "strains \<noteq> [] \<or> (\<exists>r\<in>set ?front. map_of entries r \<noteq> None)"
    using assms(5) by (auto simp: map_of_eq_None_iff)
  have "\<exists>mid. mid \<noteq> [] \<and> t = mid @ [''k__'' @ d, ''d__'' @ d]"
    by (rule pad_loop_kd[OF k assms(3) assms(4) _ _ nonempty pl]) simp_all
  then obtain mid where "mid \<noteq> []" and "t = mid @ [''k__'' @ d, ''d__'' @ d]" by blast
  then have "join '';'' (rev t) = (''d__'' @ d) @ '';'' @ (''k__'' @ d) @ '';'' @ join '';'' (rev mid)"
    using join_rev_two[of mid "'';''" "''k__'' @ d" "''d__'' @ d"] by simp
  with out show ?thesis by simp
qed

theorem pad_ranks_kingdom_mirrors_domain_witness:
  "pad_ranks [''d__Bacteria'', ''s__Sp'', ''s1__St''] =
     Inr ''d__Bacteria;k__Bacteria;p__containing s__Sp;c__containing s__Sp;o__containing s__Sp;f__containing s__Sp;g__containing s__Sp;s__Sp;s1__St'' \<and>
   (\<exists>rest. pad_ranks [''d__Bacteria'', ''s__Sp'', ''s1__St''] =
     Inr (''d__'' @ ''Bacteria'' @ '';k__'' @ ''Bacteria'' @ '';'' @ rest))"
proof -
  have e: "pad_ranks [''d__Bacteria'', ''s__Sp'', ''s1__St''] =
     Inr ''d__Bacteria;k__Bacteria;p__containing s__Sp;c__containing s__Sp;o__containing s__Sp;f__containing s__Sp;g__containing s__Sp;s__Sp;s1__St''"
    by (simp add: pad_ranks_def startswith_def order_def)
  let ?ranks = "[''d__Bacteria'', ''s__Sp'', ''s1__St'']"
  let ?entries = "[(''d'', ''Bacteria''), (''s'', ''Sp''), (''s1'', ''St'')]"
  have h1: "map split2 ?ranks = map Some ?entries" by simp
  have h2: "''k'' \<notin> fst ` set ?entries" by simp
  have h3: "map_of ?entries ''d'' = Some ''Bacteria''" by simp
  have h4: "''Bacteria'' = ''Bacteria'' \<or> ''Bacteria'' = ''Archaea''" by simp
  have h5: "''s'' \<in> fst ` set ?entries \<or>
         ((\<exists>r\<in>set [''g'', ''f'', ''o'', ''c'', ''p'']. r \<in> fst ` set ?entries) \<and>
          \<not> (\<exists>(r, l)\<in>set ?entries. 1 < length r \<and> startswith r ''s''))" by simp
  from pad_ranks_kingdom_mirrors_domain[OF h1 h2 h3 h4 h5] e show ?thesis by blast
qed

text \<open>
  Claim C10. \<^verbatim>\<open>_pad_ranks\<close> raises \<^verbatim>\<open>UnboundLocalError\<close> exactly when the path parses,
  holds a strain entry (so that output exists when the scan starts) and has no \<^verbatim>\<open>s\<close>
  entry, the first rank of the scan and so the only one that could have set
  \<^verbatim>\<open>last_good_label\<close> before the first \<^verbatim>\<open>containing\<close> step; hence it returns a string only
  when every \<^verbatim>\<open>containing\<close> step comes after an entry that set the label. The path
  \<^verbatim>\<open>['s1__X']\<close> raises.
\<close>

theorem pad_ranks_unbound_local:
  "((pad_ranks ranks = Inl UnboundLocalError) =
      (\<exists>entries. map split2 ranks = map Some entries \<and>
         (\<exists>(r, l)\<in>set entries. 1 < length r \<and> startswith r ''s'') \<and>
         ''s'' \<notin> fst ` set entries)) \<and>
   pad_ranks [''s1__X''] = Inl UnboundLocalError"
proof
  show "(pad_ranks ranks = Inl UnboundLocalError) =
      (\<exists>entries. map split2 ranks = map Some entries \<and>
         (\<exists>(r, l)\<in>set entries. 1 < length r \<and> startswith r ''s'') \<and>
         ''s'' \<notin> fst ` set entries)"
  proof (cases "\<exists>entries. map split2 ranks = map Some entries")
    case False
    then have "\<nexists>es. map split2 (rev ranks) = map Some es"
      by (metis rev_map rev_rev_ident)
    then have "scan_ranks (rev ranks) Map.empty [] = Inl ValueError"
      by (rule scan_ranks_Inl)
    then have "pad_ranks ranks = Inl ValueError" by (simp add: pad_ranks_def)
    with False show ?thesis by auto
  next
    case True
    then obtain entries where e: "map split2 ranks = map Some entries" ..
    then have uniq: "\<And>es. map split2 ranks = map Some es \<Longrightarrow> es = entries"
      by (metis list.inj_map_strong option.inject)
    from scan_ranks_rev[OF e] obtain strains where
      sc: "scan_ranks (rev ranks) Map.empty [] = Inr (map_of entries, strains)" and
      st: "strains \<noteq> [] \<longleftrightarrow> (\<exists>(r, l)\<in>set entries. 1 < length r \<and> startswith r ''s'')"
      by blast
    have "(pad_ranks ranks = Inl UnboundLocalError) =
          (pad_loop (rev order) (map_of entries) strains None = Inl UnboundLocalError)"
      by (simp add: pad_ranks_def sc split: sum.splits)
    also have "\<dots> = (map_of entries ''s'' = None \<and> strains \<noteq> [])"
      by (rule pad_loop_order_unbound)
    also have "\<dots> = ((\<exists>(r, l)\<in>set entries. 1 < length r \<and> startswith r ''s'') \<and>
         ''s'' \<notin> fst ` set entries)"
      using st by (auto simp: map_of_eq_None_iff)
    finally show ?thesis using e uniq by blast
  qed
next
  show "pad_ranks [''s1__X''] = Inl UnboundLocalError"
    by (simp add: pad_ranks_def startswith_def order_def)
qed

theorem pad_ranks_unbound_local_witness:
  "map split2 [''s1__X'', ''s2__Y''] = map Some [(''s1'', ''X''), (''s2'', ''Y'')] \<and>
   pad_ranks [''s1__X'', ''s2__Y''] = Inl UnboundLocalError"
proof -
  have h: "map split2 [''s1__X'', ''s2__Y''] = map Some [(''s1'', ''X''), (''s2'', ''Y'')]"
    by simp
  have "\<exists>entries. map split2 [''s1__X'', ''s2__Y''] = map Some entries \<and>
         (\<exists>(r, l)\<in>set entries. 1 < length r \<and> startswith r ''s'') \<and>
         ''s'' \<notin> fst ` set entries"
    by (rule exI[of _ "[(''s1'', ''X''), (''s2'', ''Y'')]"]) (simp add: startswith_def)
  with pad_ranks_unbound_local[of "[''s1__X'', ''s2__Y'']"] h show ?thesis by blast
qed

section \<open>Trees: traversal, lookup and mutation\<close>

lemma pre_list_append: "pre_list (xs @ ys) = pre_list xs @ pre_list ys"
  by (induction xs) auto

lemma modify_list_append: "modify_list f j (xs @ ys) = modify_list f j xs @ modify_list f j ys"
  by (induction xs) auto

lemma spine_list_snoc: "spine_list (xs @ [c]) = spine c"
proof (induction xs)
  case Nil
  then show ?case by simp
next
  case (Cons x xs)
  then show ?case by (cases xs) auto
qed

lemma modify_absent:
  "j \<notin> fst ` set (pre t) \<Longrightarrow> modify f j t = t"
  "j \<notin> fst ` set (pre_list cs) \<Longrightarrow> modify_list f j cs = cs"
  by (induction f j t and f j cs rule: modify_modify_list.induct) auto

lemma lookup_absent:
  "(lookup t j = None) = (j \<notin> fst ` set (pre t))"
  "(lookup_list cs j = None) = (j \<notin> fst ` set (pre_list cs))"
  by (induction t j and cs j rule: lookup_lookup_list.induct) (auto split: option.splits)

lemma spine_subset:
  "set (spine t) \<subseteq> fst ` set (pre t)"
  "set (spine_list cs) \<subseteq> fst ` set (pre_list cs)"
  by (induction t and cs rule: spine_spine_list.induct) auto

lemma append_on_spine:
  "distinct (map fst (pre t)) \<Longrightarrow> p \<in> set (spine t) \<Longrightarrow>
     pre (modify (append_child c) p t) = pre t @ pre c \<and>
     spine (modify (append_child c) p t) = takeWhile (\<lambda>x. x \<noteq> p) (spine t) @ p # spine c"
  "distinct (map fst (pre_list cs)) \<Longrightarrow> p \<in> set (spine_list cs) \<Longrightarrow>
     pre_list (modify_list (append_child c) p cs) = pre_list cs @ pre c \<and>
     spine_list (modify_list (append_child c) p cs) =
       takeWhile (\<lambda>x. x \<noteq> p) (spine_list cs) @ p # spine c"
proof (induction t and cs rule: spine_spine_list.induct)
  case (1 i n l t cs)
  show ?case
  proof (cases "i = p")
    case True
    then show ?thesis by (simp add: append_child_def pre_list_append spine_list_snoc)
  next
    case False
    with 1 show ?thesis by simp
  qed
next
  case 2
  then show ?case by simp
next
  case (3 c')
  then show ?case by simp
next
  case (4 c' d cs)
  from "4.prems" have p: "p \<in> set (spine_list (d # cs))" by simp
  then have "p \<in> fst ` set (pre_list (d # cs))" using spine_subset(2) by blast
  with "4.prems"(1) have "p \<notin> fst ` set (pre c')" by auto
  then have same: "modify (append_child c) p c' = c'" by (rule modify_absent)
  from "4.prems"(1) have "distinct (map fst (pre_list (d # cs)))" by simp
  from "4.IH"[OF this p] same show ?case by simp
qed

lemma map_set_flag_absent: "j \<notin> fst ` set xs \<Longrightarrow> map (set_flag j) xs = xs"
  by (induction xs) (auto simp: set_flag_def)

lemma map_fst_set_flag: "map fst (map (set_flag j) xs) = map fst xs"
  by (induction xs) (auto simp: set_flag_def)

lemma lookup_Some:
  "lookup t j = Some node \<Longrightarrow> ident node = j \<and> set (pre node) \<subseteq> set (pre t)"
  "lookup_list cs j = Some node \<Longrightarrow> ident node = j \<and> set (pre node) \<subseteq> set (pre_list cs)"
  by (induction t j and cs j rule: lookup_lookup_list.induct)
     (auto split: option.splits if_splits)

lemma pre_set_tip: "pre (set_tip c) = set_flag (ident c) (hd (pre c)) # tl (pre c)"
  by (cases c) (simp add: set_tip_def set_flag_def)

lemma pre_nonempty: "pre c \<noteq> []" and hd_pre: "fst (hd (pre c)) = ident c"
  by (cases c, simp)+

lemma pre_set_tip_distinct:
  assumes "distinct (map fst (pre c))"
  shows "pre (set_tip c) = map (set_flag (ident c)) (pre c)"
proof -
  obtain i n l t cs where c: "c = TreeNode i n l t cs" by (cases c)
  with assms have "i \<notin> fst ` set (pre_list cs)" by auto
  then have "map (set_flag i) (pre_list cs) = pre_list cs" by (rule map_set_flag_absent)
  then show ?thesis using c by (simp add: set_tip_def set_flag_def)
qed

lemma set_flag_tuple:
  "set_flag j (i, n, l, t) = (if i = j then (i, n, l, Some True) else (i, n, l, t))"
  by (simp add: set_flag_def)

lemma ident_in_pre: "ident c \<in> fst ` set (pre c)"
  by (cases c) simp

lemma mark_pre:
  "distinct (map fst (pre t)) \<Longrightarrow> lookup t p = Some (TreeNode p n l tp (c # cs')) \<Longrightarrow>
     pre (modify set_first_child_tip p t) = map (set_flag (ident c)) (pre t)"
  "distinct (map fst (pre_list ts)) \<Longrightarrow> lookup_list ts p = Some (TreeNode p n l tp (c # cs')) \<Longrightarrow>
     pre_list (modify_list set_first_child_tip p ts) = map (set_flag (ident c)) (pre_list ts)"
proof (induction t p and ts p rule: lookup_lookup_list.induct)
  case (1 i n0 l0 t0 cs j)
  show ?case
  proof (cases "i = j")
    case True
    with "1.prems" have cs: "cs = c # cs'" by simp
    from "1.prems"(1) cs have dc: "distinct (map fst (pre c))"
      and ni: "i \<noteq> ident c" and nr: "ident c \<notin> fst ` set (pre_list cs')"
      using ident_in_pre[of c] by auto
    have "map (set_flag (ident c)) (pre_list cs') = pre_list cs'"
      using nr by (rule map_set_flag_absent)
    then show ?thesis using True cs ni pre_set_tip_distinct[OF dc]
      by (simp add: set_first_child_tip_def set_flag_tuple)
  next
    case False
    with "1.prems" have lk: "lookup_list cs j = Some (TreeNode j n l tp (c # cs'))" by simp
    from "1.prems"(1) have d: "distinct (map fst (pre_list cs))" by simp
    from lookup_Some(2)[OF lk] have "set (pre c) \<subseteq> set (pre_list cs)" by auto
    then have "ident c \<in> fst ` set (pre_list cs)"
      using ident_in_pre[of c] by auto
    with "1.prems"(1) have "i \<noteq> ident c" by auto
    then show ?thesis using False "1.IH"[OF False d lk] by (simp add: set_flag_tuple)
  qed
next
  case (2 j)
  then show ?case by simp
next
  case (3 c0 cs0 j)
  from "3.prems"(1) have d0: "distinct (map fst (pre c0))" and d1: "distinct (map fst (pre_list cs0))"
    and disj: "fst ` set (pre c0) \<inter> fst ` set (pre_list cs0) = {}" by auto
  show ?case
  proof (cases "lookup c0 j")
    case None
    with "3.prems" have lk: "lookup_list cs0 j = Some (TreeNode j n l tp (c # cs'))" by simp
    from None have "j \<notin> fst ` set (pre c0)" by (simp add: lookup_absent)
    then have same: "modify set_first_child_tip j c0 = c0" by (rule modify_absent)
    from lookup_Some(2)[OF lk] have "set (pre c) \<subseteq> set (pre_list cs0)" by auto
    then have "ident c \<in> fst ` set (pre_list cs0)"
      using ident_in_pre[of c] by auto
    with disj have "ident c \<notin> fst ` set (pre c0)" by auto
    then have "map (set_flag (ident c)) (pre c0) = pre c0" by (rule map_set_flag_absent)
    then show ?thesis using same "3.IH"(2)[OF None d1 lk] by simp
  next
    case (Some x)
    with "3.prems" have lk: "lookup c0 j = Some (TreeNode j n l tp (c # cs'))" by simp
    then have "j \<in> fst ` set (pre c0)" using lookup_absent(1)[of c0 j] by simp
    with disj have "j \<notin> fst ` set (pre_list cs0)" by auto
    then have same: "modify_list set_first_child_tip j cs0 = cs0" by (rule modify_absent)
    from lookup_Some(1)[OF lk] have "set (pre c) \<subseteq> set (pre c0)" by auto
    then have "ident c \<in> fst ` set (pre c0)"
      using ident_in_pre[of c] by auto
    with disj have "ident c \<notin> fst ` set (pre_list cs0)" by auto
    then have "map (set_flag (ident c)) (pre_list cs0) = pre_list cs0" by (rule map_set_flag_absent)
    then show ?thesis using same "3.IH"(1)[OF d0 lk] by simp
  qed
qed

lemma spine_set_tip: "spine (set_tip c) = spine c"
  by (cases c) (simp add: set_tip_def)

lemma spine_set_first_child_tip: "spine (set_first_child_tip node) = spine node"
proof -
  obtain i n l t cs where node: "node = TreeNode i n l t cs" by (cases node)
  show ?thesis
  proof (cases cs)
    case Nil
    with node show ?thesis by (simp add: set_first_child_tip_def)
  next
    case (Cons c cs')
    with node show ?thesis by (cases cs') (simp_all add: set_first_child_tip_def spine_set_tip)
  qed
qed

lemma spine_modify_mark:
  "spine (modify set_first_child_tip p t) = spine t"
  "spine_list (modify_list set_first_child_tip p cs) = spine_list cs"
proof (induction t and cs rule: spine_spine_list.induct)
  case (1 i n l t cs)
  show ?case
  proof (cases "i = p")
    case True
    then show ?thesis using spine_set_first_child_tip[of "TreeNode i n l t cs"] by simp
  next
    case False
    with 1 show ?thesis by simp
  qed
qed simp_all

lemma lookup_list_append:
  "lookup_list (xs @ ys) j = (case lookup_list xs j of Some x \<Rightarrow> Some x | None \<Rightarrow> lookup_list ys j)"
  by (induction xs) (auto split: option.splits)

lemma lookup_self: "lookup c (ident c) = Some c"
  by (cases c) simp

lemma lookup_appended:
  "ident c \<notin> fst ` set (pre t) \<Longrightarrow> p \<in> fst ` set (pre t) \<Longrightarrow>
     lookup (modify (append_child c) p t) (ident c) = Some c"
  "ident c \<notin> fst ` set (pre_list ts) \<Longrightarrow> p \<in> fst ` set (pre_list ts) \<Longrightarrow>
     lookup_list (modify_list (append_child c) p ts) (ident c) = Some c"
proof (induction "append_child c" p t and "append_child c" p ts rule: modify_modify_list.induct)
  case (1 j i n l t cs)
  show ?case
  proof (cases "i = j")
    case True
    from "1.prems"(1) have ni: "i \<noteq> ident c" and "ident c \<notin> fst ` set (pre_list cs)" by auto
    then have "lookup_list cs (ident c) = None" by (simp add: lookup_absent)
    then show ?thesis using True ni
      by (simp add: append_child_def lookup_list_append lookup_self)
  next
    case False
    with "1.prems" have "j \<in> fst ` set (pre_list cs)" and "ident c \<notin> fst ` set (pre_list cs)"
      and "i \<noteq> ident c" by auto
    with "1.hyps"[OF False] False show ?thesis by simp
  qed
next
  case (2 j)
  then show ?case by simp
next
  case (3 j c0 cs0)
  from "3.prems"(1) have a0: "ident c \<notin> fst ` set (pre c0)" and a1: "ident c \<notin> fst ` set (pre_list cs0)"
    by auto
  show ?case
  proof (cases "j \<in> fst ` set (pre c0)")
    case True
    from "3.hyps"(1)[OF a0 True] show ?thesis by simp
  next
    case False
    then have same: "modify (append_child c) j c0 = c0" by (rule modify_absent)
    from a0 have none: "lookup c0 (ident c) = None" by (simp add: lookup_absent)
    from False "3.prems"(2) have "j \<in> fst ` set (pre_list cs0)" by auto
    from "3.hyps"(2)[OF a1 this] same none show ?thesis by simp
  qed
qed

lemma distinct_spine:
  "distinct (map fst (pre t)) \<Longrightarrow> distinct (spine t)"
  "distinct (map fst (pre_list cs)) \<Longrightarrow> distinct (spine_list cs)"
proof (induction t and cs rule: spine_spine_list.induct)
  case (1 i n l t cs)
  then show ?case using spine_subset(2)[of cs] by auto
qed auto

lemma pop_loop_Inr:
  "stack \<noteq> [] \<Longrightarrow> parent = hd stack \<Longrightarrow> pop_loop indent parent stack = Inr (parent', stack') \<Longrightarrow>
     \<exists>popped. stack = popped @ stack' \<and> stack' \<noteq> [] \<and> parent' = hd stack' \<and>
        fst parent' < indent \<and> (\<forall>x\<in>set popped. indent \<le> fst x)"
proof (induction indent parent stack rule: pop_loop.induct)
  case (1 indent parent)
  then show ?case by simp
next
  case (2 indent parent x)
  then show ?case by (auto split: if_splits)
next
  case (3 indent parent x y stack)
  show ?case
  proof (cases "indent \<le> fst parent")
    case True
    with "3.prems" have run: "pop_loop indent y (y # stack) = Inr (parent', stack')" by simp
    from "3.IH"[OF True _ _ run] obtain popped where
      "y # stack = popped @ stack'" "stack' \<noteq> []" "parent' = hd stack'" "fst parent' < indent"
      "\<forall>x\<in>set popped. indent \<le> fst x" by auto
    with True "3.prems"(2) show ?thesis
      by (intro exI[of _ "x # popped"]) auto
  next
    case False
    with "3.prems" show ?thesis by (intro exI[of _ "[]"]) auto
  qed
qed

lemma pop_loop_succeeds:
  "stack \<noteq> [] \<Longrightarrow> parent = hd stack \<Longrightarrow> fst (last stack) < indent \<Longrightarrow>
     \<exists>r. pop_loop indent parent stack = Inr r"
  by (induction indent parent stack rule: pop_loop.induct) auto

lemma pop_loop_Inr_cons:
  assumes "pop_loop indent x (x # rest) = Inr (parent', stack')"
  shows "\<exists>popped. x # rest = popped @ stack' \<and> stack' \<noteq> [] \<and> parent' = hd stack' \<and>
        fst parent' < indent \<and> (\<forall>y\<in>set popped. indent \<le> fst y)"
  by (rule pop_loop_Inr[OF _ _ assms]) simp_all

lemma pop_loop_succeeds_cons:
  assumes "fst (last (x # rest)) < indent"
  shows "\<exists>r. pop_loop indent x (x # rest) = Inr r"
  by (rule pop_loop_succeeds[OF _ _ assms]) simp_all

section \<open>The builder keeps its invariant\<close>

lemma process_row_cons:
  "process_row (tree, (d, i) # rest, fresh) row =
     (case (if get_indentation (row_name row) \<le> d then mark_first_child tree i else Inr tree) of
        Inl e \<Rightarrow> Inl e
      | Inr tree1 \<Rightarrow>
          (case pop_loop (get_indentation (row_name row)) (d, i) ((d, i) # rest) of
             Inl e \<Rightarrow> Inl e
           | Inr (parent', stack'') \<Rightarrow>
               Inr (append_node tree1 (snd parent')
                      (TreeNode fresh (Some (lower (row_rank row) @ ''__'' @ strip (row_name row))) (Some 1) None
                         [TreeNode (fresh + 1) (Some (row_ncbi_tax_id row)) (Some 0) (Some False) []]),
                    (get_indentation (row_name row), fresh) # stack'', fresh + 2)))"
  unfolding process_row_def Let_def
  by (simp split: sum.splits prod.splits)

lemma process_row_step:
  assumes inv: "builder_inv (tree, stack, fresh)"
    and run: "process_row (tree, stack, fresh) row = Inr (tree', stack', fresh')"
  shows "builder_inv (tree', stack', fresh')"
    and "fresh' = fresh + 2"
    and "hd stack' = (get_indentation (row_name row), fresh)"
    and "lookup tree' fresh =
           Some (TreeNode fresh (Some (lower (row_rank row) @ ''__'' @ strip (row_name row))) (Some 1) None
                  [TreeNode (fresh + 1) (Some (row_ncbi_tax_id row)) (Some 0) (Some False) []])"
    and "get_indentation (row_name row) \<le> fst (hd stack) \<Longrightarrow>
           \<exists>c cs. children_of tree (snd (hd stack)) = c # cs \<and>
             pre tree' = map (set_flag (ident c)) (pre tree) @ new_entries fresh row"
    and "\<not> get_indentation (row_name row) \<le> fst (hd stack) \<Longrightarrow>
           pre tree' = pre tree @ new_entries fresh row"
proof -
  define indent where "indent = get_indentation (row_name row)"
  define id_node where "id_node = TreeNode (fresh + 1) (Some (row_ncbi_tax_id row)) (Some 0) (Some False) []"
  define node where "node = TreeNode fresh (Some (lower (row_rank row) @ ''__'' @ strip (row_name row))) (Some 1) None [id_node]"
  from inv obtain d i rest where stack: "stack = (d, i) # rest"
    by (cases stack) (auto simp: builder_inv_def)
  from inv have dist: "distinct (map fst (pre tree))" and bound: "\<forall>i\<in>fst ` set (pre tree). i < fresh"
    and last0: "fst (last stack) = 0" by (auto simp: builder_inv_def)
  from inv obtain tail where sp: "spine tree = rev (map snd stack) @ tail" by (auto simp: builder_inv_def)
  have cons: "process_row (tree, (d, i) # rest, fresh) row =
     (case (if indent \<le> d then mark_first_child tree i else Inr tree) of
        Inl e \<Rightarrow> Inl e
      | Inr tree1 \<Rightarrow>
          (case pop_loop indent (d, i) ((d, i) # rest) of
             Inl e \<Rightarrow> Inl e
           | Inr (parent', stack'') \<Rightarrow>
               Inr (append_node tree1 (snd parent') node, (indent, fresh) # stack'', fresh + 2)))"
    unfolding indent_def node_def id_node_def by (rule process_row_cons)
  from run have run0: "process_row (tree, (d, i) # rest, fresh) row = Inr (tree', stack', fresh')"
    unfolding stack .
  obtain tree1 where m: "(if indent \<le> d then mark_first_child tree i else Inr tree) = Inr tree1"
    using run0 unfolding cons
    by (cases "if indent \<le> d then mark_first_child tree i else Inr tree") simp_all
  obtain parent' stack'' where
    pop0: "pop_loop indent (d, i) ((d, i) # rest) = Inr (parent', stack'')"
    using run0 unfolding cons m
    by (cases "pop_loop indent (d, i) ((d, i) # rest)") auto
  obtain d' p' where parent': "parent' = (d', p')" by (cases parent')
  from pop0 parent' have pop: "pop_loop indent (d, i) stack = Inr ((d', p'), stack'')"
    by (simp add: stack)
  from run0 have
    res: "tree' = append_node tree1 p' node" "stack' = (indent, fresh) # stack''" "fresh' = fresh + 2"
    unfolding cons m pop0 parent' by simp_all
  from m have mark_ok: "indent \<le> d \<Longrightarrow> children_of tree i \<noteq> []"
    by (auto simp: mark_first_child_def split: if_splits)
  from m have tree1_def: "tree1 = (if indent \<le> d then modify set_first_child_tip i tree else tree)"
    by (auto simp: mark_first_child_def split: if_splits)
  from pop_loop_Inr_cons[OF pop0] obtain popped where
    pp0: "(d, i) # rest = popped @ stack''" "stack'' \<noteq> []" "parent' = hd stack''" "fst parent' < indent"
    by blast
  have pp: "stack = popped @ stack''" "stack'' \<noteq> []" "(d', p') = hd stack''" "d' < indent"
  proof -
    show "stack = popped @ stack''" using pp0(1) by (simp add: stack)
    show "stack'' \<noteq> []" by (rule pp0(2))
    show "(d', p') = hd stack''" using pp0(3) parent' by simp
    show "d' < indent" using pp0(4) parent' by simp
  qed
  \<comment> \<open>the tree after the optional marking\<close>
  have mark_case: "indent \<le> d \<Longrightarrow> \<exists>c cs. children_of tree i = c # cs \<and> pre tree1 = map (set_flag (ident c)) (pre tree)"
  proof -
    assume le: "indent \<le> d"
    from mark_ok[OF le] have ne: "children_of tree i \<noteq> []" .
    with inv stack have "rest \<noteq> []" by (auto simp: builder_inv_def split: if_splits)
    with inv stack obtain n otu where
      lk: "lookup tree i = Some (TreeNode i n (Some 1) None [TreeNode (i + 1) otu (Some 0) (Some False) []])"
      by (auto simp: builder_inv_def)
    from mark_pre(1)[OF dist lk] le have "pre tree1 = map (set_flag (i + 1)) (pre tree)"
      by (simp add: tree1_def)
    with lk show ?thesis by (simp add: children_of_def)
  qed
  have ids1: "map fst (pre tree1) = map fst (pre tree)"
  proof (cases "indent \<le> d")
    case True
    from mark_case[OF True] obtain c where "pre tree1 = map (set_flag (ident c)) (pre tree)" by blast
    then show ?thesis using map_fst_set_flag[of "ident c" "pre tree"] by simp
  next
    case False
    then show ?thesis by (simp add: tree1_def)
  qed
  have sp1: "spine tree1 = spine tree"
    by (simp add: tree1_def spine_modify_mark)
  have dist1: "distinct (map fst (pre tree1))" using dist ids1 by simp
  have p'_stack: "p' \<in> snd ` set stack''" using pp(2,3) by (metis hd_in_set image_eqI snd_conv)
  then have p'_spine: "p' \<in> set (spine tree1)" using sp1 sp pp(1) by auto
  from append_on_spine(1)[OF dist1 p'_spine, of node]
  have pre': "pre tree' = pre tree1 @ pre node"
    and spine': "spine tree' = takeWhile (\<lambda>x. x \<noteq> p') (spine tree1) @ p' # spine node"
    by (simp_all add: res append_node_def)
  have pre_node: "pre node = new_entries fresh row"
    by (simp add: node_def id_node_def new_entries_def)
  show "fresh' = fresh + 2" by (rule res)
  show "hd stack' = (get_indentation (row_name row), fresh)" by (simp add: res indent_def)
  show "get_indentation (row_name row) \<le> fst (hd stack) \<Longrightarrow>
           \<exists>c cs. children_of tree (snd (hd stack)) = c # cs \<and>
             pre tree' = map (set_flag (ident c)) (pre tree) @ new_entries fresh row"
    using mark_case pre' pre_node stack by (auto simp: indent_def)
  show "\<not> get_indentation (row_name row) \<le> fst (hd stack) \<Longrightarrow>
           pre tree' = pre tree @ new_entries fresh row"
    using pre' pre_node stack by (simp add: indent_def tree1_def)
  have fresh_notin: "fresh \<notin> fst ` set (pre tree1)"
    using bound ids1 by (metis less_irrefl list.set_map)
  have p'_in: "p' \<in> fst ` set (pre tree1)" using p'_spine spine_subset(1) by blast
  have "ident node = fresh" by (simp add: node_def)
  with lookup_appended(1)[of node tree1 p'] fresh_notin p'_in
  have lk': "lookup tree' fresh = Some node" by (simp add: res append_node_def)
  then show "lookup tree' fresh =
           Some (TreeNode fresh (Some (lower (row_rank row) @ ''__'' @ strip (row_name row))) (Some 1) None
                  [TreeNode (fresh + 1) (Some (row_ncbi_tax_id row)) (Some 0) (Some False) []])"
    by (simp add: node_def id_node_def)
  \<comment> \<open>the invariant\<close>
  have ids': "map fst (pre tree') = map fst (pre tree) @ [fresh, fresh + 1]"
    using pre' pre_node ids1 by (simp add: new_entries_def)
  have d': "distinct (map fst (pre tree'))"
    using dist bound by (auto simp: ids')
  have b': "\<forall>i\<in>fst ` set (pre tree'). i < fresh'"
  proof
    fix j assume "j \<in> fst ` set (pre tree')"
    then have "j \<in> set (map fst (pre tree'))" by simp
    then have "j \<in> fst ` set (pre tree) \<or> j = fresh \<or> j = fresh + 1" by (auto simp: ids')
    with bound show "j < fresh'" by (auto simp: res)
  qed
  have l': "fst (last stack') = 0" using last0 pp by (simp add: res)
  obtain xs where xs: "rev (map snd stack'') = xs @ [p']"
    using pp(2,3) by (cases stack'') (auto)
  have dsp: "distinct (spine tree)" using dist by (rule distinct_spine)
  have spt: "spine tree = xs @ p' # (rev (map snd popped) @ tail)"
    using sp pp(1) xs by simp
  with dsp have "p' \<notin> set xs" by auto
  then have "takeWhile (\<lambda>x. x \<noteq> p') (xs @ p' # (rev (map snd popped) @ tail)) =
      xs @ takeWhile (\<lambda>x. x \<noteq> p') (p' # (rev (map snd popped) @ tail))"
    by (intro takeWhile_append2) auto
  then have "takeWhile (\<lambda>x. x \<noteq> p') (spine tree) = xs"
    by (simp add: spt)
  then have s': "spine tree' = rev (map snd stack') @ [fresh + 1]"
    using spine' sp1 xs by (simp add: res node_def id_node_def)
  show "builder_inv (tree', stack', fresh')"
    using d' b' l' s' lk' pp(2) by (simp add: builder_inv_def res node_def id_node_def)
qed

lemma process_row_succeeds:
  assumes inv: "builder_inv (tree, stack, fresh)" and ind: "1 \<le> get_indentation (row_name row)"
  shows "\<exists>st'. process_row (tree, stack, fresh) row = Inr st'"
proof -
  define indent where "indent = get_indentation (row_name row)"
  from inv obtain d i rest where stack: "stack = (d, i) # rest"
    by (cases stack) (auto simp: builder_inv_def)
  from inv have last0: "fst (last stack) = 0" by (auto simp: builder_inv_def)
  have mark: "indent \<le> d \<Longrightarrow> children_of tree i \<noteq> []"
  proof -
    assume "indent \<le> d"
    with ind have "d \<noteq> 0" by (simp add: indent_def)
    with last0 stack have "rest \<noteq> []" by auto
    with inv stack show ?thesis by (auto simp: builder_inv_def children_of_def)
  qed
  from last0 ind have "fst (last stack) < indent" by (simp add: indent_def)
  then have "fst (last ((d, i) # rest)) < indent" by (simp add: stack)
  from pop_loop_succeeds_cons[OF this]
  obtain r where pop: "pop_loop indent (d, i) ((d, i) # rest) = Inr r" by blast
  have "\<exists>tree1. (if indent \<le> d then mark_first_child tree i else Inr tree) = Inr tree1"
    using mark by (simp add: mark_first_child_def)
  then obtain tree1 where m: "(if indent \<le> d then mark_first_child tree i else Inr tree) = Inr tree1" ..
  have "\<exists>st'. process_row (tree, (d, i) # rest, fresh) row = Inr st'"
    using m pop unfolding process_row_cons indent_def by (cases r) simp
  then show ?thesis by (simp add: stack)
qed

lemma inv_initial: "builder_inv (initial_builder r)"
  by (simp add: builder_inv_def initial_builder_def children_of_def)

lemma names_set_flag: "map (\<lambda>(i, n, l, t). n) (map (set_flag j) xs) = map (\<lambda>(i, n, l, t). n) xs"
  by (induction xs) (auto simp: set_flag_def)

lemma names_new_entries: "map (\<lambda>(i, n, l, t). n) (new_entries fresh row) = row_names row"
  by (simp add: new_entries_def row_names_def)

lemma node_names_append_flag:
  "pre tree' = map (set_flag j) (pre tree) @ new_entries fresh row \<Longrightarrow>
   node_names tree' = node_names tree @ row_names row"
  unfolding node_names_def using names_set_flag[of j "pre tree"] names_new_entries[of fresh row]
  by (simp del: map_map)

lemma process_rows_Cons_kept:
  assumes "\<not> skipped (row_rank row)" and "process_rows st (row # df) = Inr st'"
  shows "\<exists>t1 s1 f1. process_row st row = Inr (t1, s1, f1) \<and> process_rows (t1, s1, f1) df = Inr st'"
proof (cases "process_row st row")
  case (Inl e)
  with assms show ?thesis by simp
next
  case (Inr st1)
  obtain t1 s1 f1 where "st1 = (t1, s1, f1)" by (cases st1)
  with Inr assms show ?thesis by simp
qed

lemma process_row_names:
  assumes "builder_inv (tree, stack, fresh)"
    and "process_row (tree, stack, fresh) row = Inr (tree', stack', fresh')"
  shows "node_names tree' = node_names tree @ row_names row"
    and "map fst (pre tree') = map fst (pre tree) @ [fresh, fresh + 1]"
proof -
  note s = process_row_step[OF assms]
  show "node_names tree' = node_names tree @ row_names row"
  proof (cases "get_indentation (row_name row) \<le> fst (hd stack)")
    case True
    from s(5)[OF True] obtain c where "pre tree' = map (set_flag (ident c)) (pre tree) @ new_entries fresh row"
      by blast
    then show ?thesis by (rule node_names_append_flag)
  next
    case False
    from s(6)[OF False] show ?thesis by (simp add: node_names_def names_new_entries)
  qed
  show "map fst (pre tree') = map fst (pre tree) @ [fresh, fresh + 1]"
  proof (cases "get_indentation (row_name row) \<le> fst (hd stack)")
    case True
    from s(5)[OF True] obtain c where "pre tree' = map (set_flag (ident c)) (pre tree) @ new_entries fresh row"
      by blast
    then show ?thesis using map_fst_set_flag[of "ident c" "pre tree"] by (simp add: new_entries_def)
  next
    case False
    from s(6)[OF False] show ?thesis by (simp add: new_entries_def)
  qed
qed

lemma process_rows_all_skipped:
  "kept_rows df = [] \<Longrightarrow> process_rows st df = Inr st"
  by (induction df) (auto simp: kept_rows_def split: if_splits)

lemma process_rows_inv:
  assumes "builder_inv (tree, stack, fresh)"
    and "process_rows (tree, stack, fresh) df = Inr (tree', stack', fresh')"
  shows "builder_inv (tree', stack', fresh')"
    and "node_names tree' = node_names tree @ concat (map row_names (kept_rows df))"
    and "\<exists>ids. map fst (pre tree') = map fst (pre tree) @ ids"
    and "kept_rows df \<noteq> [] \<Longrightarrow>
           lookup tree' (snd (hd stack')) =
             Some (TreeNode (snd (hd stack'))
                     (Some (lower (row_rank (last (kept_rows df))) @ ''__'' @
                            strip (row_name (last (kept_rows df))))) (Some 1) None
                     [TreeNode (snd (hd stack') + 1)
                        (Some (row_ncbi_tax_id (last (kept_rows df)))) (Some 0) (Some False) []])"
  using assms
proof (induction df arbitrary: tree stack fresh)
  case Nil
  case 1 then show ?case by simp
  case 2 then show ?case by (simp add: kept_rows_def)
  case 3 then show ?case by simp
  case 4 then show ?case by (simp add: kept_rows_def)
next
  case (Cons row df)
  {
    case 1
    show ?case
    proof (cases "skipped (row_rank row)")
      case True
      with 1 Cons.IH(1) show ?thesis by simp
    next
      case False
      from process_rows_Cons_kept[OF False 1(2)] obtain t1 s1 f1 where
        r1: "process_row (tree, stack, fresh) row = Inr (t1, s1, f1)"
        and r2: "process_rows (t1, s1, f1) df = Inr (tree', stack', fresh')"
        by blast
      define st1 where st1: "st1 = (t1, s1, f1)"
      from process_row_step(1)[OF 1(1) r1] have "builder_inv (t1, s1, f1)" .
      from Cons.IH(1)[OF this r2] show ?thesis .
    qed
  next
    case 2
    show ?case
    proof (cases "skipped (row_rank row)")
      case True
      with 2 Cons.IH(2) show ?thesis by (simp add: kept_rows_def)
    next
      case False
      from process_rows_Cons_kept[OF False 2(2)] obtain t1 s1 f1 where
        r1: "process_row (tree, stack, fresh) row = Inr (t1, s1, f1)"
        and r2: "process_rows (t1, s1, f1) df = Inr (tree', stack', fresh')"
        by blast
      define st1 where st1: "st1 = (t1, s1, f1)"
      from process_row_step(1)[OF 2(1) r1] have i1: "builder_inv (t1, s1, f1)" .
      from process_row_names(1)[OF 2(1) r1]
      have "node_names t1 = node_names tree @ row_names row" .
      with Cons.IH(2)[OF i1 r2] False show ?thesis by (simp add: kept_rows_def)
    qed
  next
    case 3
    show ?case
    proof (cases "skipped (row_rank row)")
      case True
      with 3 Cons.IH(3) show ?thesis by simp
    next
      case False
      from process_rows_Cons_kept[OF False 3(2)] obtain t1 s1 f1 where
        r1: "process_row (tree, stack, fresh) row = Inr (t1, s1, f1)"
        and r2: "process_rows (t1, s1, f1) df = Inr (tree', stack', fresh')"
        by blast
      define st1 where st1: "st1 = (t1, s1, f1)"
      from process_row_step(1)[OF 3(1) r1] have i1: "builder_inv (t1, s1, f1)" .
      from process_row_names(2)[OF 3(1) r1]
      have "map fst (pre t1) = map fst (pre tree) @ [fresh, fresh + 1]" .
      with Cons.IH(3)[OF i1 r2] show ?thesis by auto
    qed
  next
    case 4
    show ?case
    proof (cases "skipped (row_rank row)")
      case True
      with 4 Cons.IH(4) show ?thesis by (simp add: kept_rows_def)
    next
      case False
      from process_rows_Cons_kept[OF False 4(3)] obtain t1 s1 f1 where
        r1: "process_row (tree, stack, fresh) row = Inr (t1, s1, f1)"
        and r2: "process_rows (t1, s1, f1) df = Inr (tree', stack', fresh')"
        by blast
      define st1 where st1: "st1 = (t1, s1, f1)"
      note s = process_row_step[OF 4(2) r1]
      show ?thesis
      proof (cases "kept_rows df = []")
        case True
        from process_rows_all_skipped[OF True, of "(t1, s1, f1)"] r2
        have eq: "tree' = t1" "stack' = s1" "fresh' = f1" by simp_all
        from True False have "last (kept_rows (row # df)) = row" by (simp add: kept_rows_def)
        with s(3,4) eq show ?thesis by simp
      next
        case ne: False
        with False have "last (kept_rows (row # df)) = last (kept_rows df)"
          by (simp add: kept_rows_def)
        with Cons.IH(4)[OF ne s(1) r2] show ?thesis by simp
      qed
    qed
  }
qed

lemmas eval_defs = kraken_to_ncbi_tree_def initial_builder_def process_row_def Let_def
  mark_first_child_def children_of_def append_node_def append_child_def set_first_child_tip_def
  set_tip_def skipped_def startswith_def get_indentation_def lower_def lower_char_def strip_def
  whitespace_def report_row_def

lemma process_rows_succeeds:
  assumes "builder_inv (tree, stack, fresh)"
    and "\<forall>row\<in>set df. \<not> skipped (row_rank row) \<longrightarrow> 1 \<le> get_indentation (row_name row)"
  shows "\<exists>st'. process_rows (tree, stack, fresh) df = Inr st'"
  using assms
proof (induction df arbitrary: tree stack fresh)
  case Nil
  then show ?case by simp
next
  case (Cons row df)
  show ?case
  proof (cases "skipped (row_rank row)")
    case True
    with Cons show ?thesis by simp
  next
    case False
    with Cons.prems(2) have "1 \<le> get_indentation (row_name row)" by simp
    from process_row_succeeds[OF Cons.prems(1) this] obtain st1 where
      r1: "process_row (tree, stack, fresh) row = Inr st1" ..
    obtain t1 s1 f1 where st1: "st1 = (t1, s1, f1)" by (cases st1)
    from process_row_step(1)[OF Cons.prems(1) r1[unfolded st1]] have "builder_inv (t1, s1, f1)" .
    from Cons.IH[OF this] Cons.prems(2) obtain st' where "process_rows (t1, s1, f1) df = Inr st'"
      by auto
    with r1 st1 False show ?thesis by (cases st') simp
  qed
qed

lemma modify_mark_root: 
  "ident (modify set_first_child_tip p t) = ident t \<and> name (modify set_first_child_tip p t) = name t"
proof -
  obtain i n l tp cs where t: "t = TreeNode i n l tp cs" by (cases t)
  show ?thesis unfolding t by (cases cs) (simp_all add: set_first_child_tip_def)
qed

lemma names_set_tip: "map (\<lambda>(i, n, l, t). n) (pre (set_tip c)) = map (\<lambda>(i, n, l, t). n) (pre c)"
  by (cases c) (simp add: set_tip_def)

lemma names_modify_mark:
  "map (\<lambda>(i, n, l, t). n) (pre (modify set_first_child_tip p t)) = map (\<lambda>(i, n, l, t). n) (pre t)"
  "map (\<lambda>(i, n, l, t). n) (pre_list (modify_list set_first_child_tip p cs)) =
     map (\<lambda>(i, n, l, t). n) (pre_list cs)"
proof (induction set_first_child_tip p t and set_first_child_tip p cs rule: modify_modify_list.induct)
  case (1 j i n l t cs)
  show ?case
  proof (cases "i = j")
    case True
    then show ?thesis by (cases cs) (simp_all add: set_first_child_tip_def names_set_tip)
  next
    case False
    with 1 show ?thesis by simp
  qed
qed simp_all

lemma lookup_modify_mark:
  "lookup (modify set_first_child_tip j t) j = map_option set_first_child_tip (lookup t j)"
  "lookup_list (modify_list set_first_child_tip j cs) j = map_option set_first_child_tip (lookup_list cs j)"
proof (induction t j and cs j rule: lookup_lookup_list.induct)
  case (1 i n l t cs j)
  show ?case
  proof (cases "i = j")
    case True
    then show ?thesis by (cases cs) (simp_all add: set_first_child_tip_def)
  next
    case False
    with 1 show ?thesis by simp
  qed
next
  case (2 j)
  then show ?case by simp
next
  case (3 c cs j)
  then show ?case by (cases "lookup c j") simp_all
qed

lemma kraken_to_ncbi_tree_final:
  assumes "process_rows (initial_builder r) df = Inr (tree0, stack, fresh')"
  shows "builder_inv (tree0, stack, fresh')"
    and "kraken_to_ncbi_tree r df =
           Inr (if children_of tree0 (snd (hd stack)) \<noteq> []
                then modify set_first_child_tip (snd (hd stack)) tree0 else tree0, fresh')"
proof -
  obtain t0 s0 f0 where ib: "initial_builder r = (t0, s0, f0)" by (cases "initial_builder r")
  have "builder_inv (t0, s0, f0)" using inv_initial[of r] ib by simp
  from process_rows_inv(1)[OF this] assms ib show inv: "builder_inv (tree0, stack, fresh')" by simp
  then obtain d p rest where "stack = (d, p) # rest" by (cases stack) (auto simp: builder_inv_def)
  with assms show "kraken_to_ncbi_tree r df =
           Inr (if children_of tree0 (snd (hd stack)) \<noteq> []
                then modify set_first_child_tip (snd (hd stack)) tree0 else tree0, fresh')"
    by (simp add: kraken_to_ncbi_tree_def)
qed

lemma kraken_to_ncbi_tree_Inr:
  assumes "kraken_to_ncbi_tree r df = Inr (tree, fresh')"
  shows "\<exists>tree0 stack. process_rows (initial_builder r) df = Inr (tree0, stack, fresh')"
  using assms unfolding kraken_to_ncbi_tree_def
  by (auto split: sum.splits prod.splits list.splits if_splits)

section \<open>Properties of the single-sample tree builder\<close>

text \<open>
  Claim C1 as stated fails: a single row with rank \<^verbatim>\<open>D\<close> whose name has no leading space
  has indentation 0, which is not below the sentinel's indentation 0. The stack top is
  then the root, whose list of children is empty, and \<^verbatim>\<open>parent_node.children[0]\<close>
  raises \<^verbatim>\<open>IndexError\<close>.
\<close>

theorem kraken_to_ncbi_tree_indent0_raises:
  "kraken_to_ncbi_tree 0
     [report_row ''D'' ''Bacteria'' ''2'' (1 / 2)] = Inl IndexError"
  by (simp add: eval_defs)



text \<open>
  Claim C5. When the loop over the rows has completed and at least one row was not
  skipped, \<^verbatim>\<open>_kraken_to_ncbi_tree\<close> returns, and in the returned tree the node on top of
  the final stack has exactly one child: the identifier node of the last row that was not
  skipped, with \<^verbatim>\<open>is_actual_tip = True\<close>.
\<close>

theorem last_row_is_tip:
  assumes "process_rows (initial_builder r) df = Inr (tree0, stack, fresh')"
    and "kept_rows df \<noteq> []"
  shows "\<exists>tree. kraken_to_ncbi_tree r df = Inr (tree, fresh') \<and>
           children_of tree (snd (hd stack)) =
             [TreeNode (snd (hd stack) + 1) (Some (row_ncbi_tax_id (last (kept_rows df))))
                (Some 0) (Some True) []]"
proof -
  obtain t0 s0 f0 where ib: "initial_builder r = (t0, s0, f0)" by (cases "initial_builder r")
  have i0: "builder_inv (t0, s0, f0)" using inv_initial[of r] ib by simp
  from assms(1) ib have run: "process_rows (t0, s0, f0) df = Inr (tree0, stack, fresh')" by simp
  let ?p = "snd (hd stack)"
  from process_rows_inv(4)[OF i0 run assms(2)] obtain nm where
    lk: "lookup tree0 ?p = Some (TreeNode ?p nm (Some 1) None
          [TreeNode (?p + 1) (Some (row_ncbi_tax_id (last (kept_rows df)))) (Some 0) (Some False) []])"
    by blast
  then have ne: "children_of tree0 ?p \<noteq> []" by (simp add: children_of_def)
  from kraken_to_ncbi_tree_final(2)[OF assms(1)] ne
  have res: "kraken_to_ncbi_tree r df = Inr (modify set_first_child_tip ?p tree0, fresh')" by simp
  have "children_of (modify set_first_child_tip ?p tree0) ?p =
      [TreeNode (?p + 1) (Some (row_ncbi_tax_id (last (kept_rows df)))) (Some 0) (Some True) []]"
    unfolding children_of_def lookup_modify_mark(1) lk
    by (simp add: set_first_child_tip_def set_tip_def)
  with res show ?thesis by blast
qed

theorem last_row_is_tip_witness:
  "process_rows (initial_builder 0)
     [report_row ''D'' ''  Bacteria'' ''2'' (1 / 2), report_row ''P'' ''    Ph'' ''3'' (1 / 2),
      report_row ''G'' ''      Ge'' ''4'' (1 / 2), report_row ''R'' ''root'' ''1'' (1 / 2)] =
     Inr (TreeNode 0 None None None
       [TreeNode 1 (Some ''d__Bacteria'') (Some 1) None
         [TreeNode 2 (Some ''2'') (Some 0) (Some False) [],
          TreeNode 3 (Some ''p__Ph'') (Some 1) None
           [TreeNode 4 (Some ''3'') (Some 0) (Some False) [],
            TreeNode 5 (Some ''g__Ge'') (Some 1) None
             [TreeNode 6 (Some ''4'') (Some 0) (Some False) []]]]],
      [(3, 5), (2, 3), (1, 1), (0, 0)], 7) \<and>
   (\<exists>tree. kraken_to_ncbi_tree 0
     [report_row ''D'' ''  Bacteria'' ''2'' (1 / 2), report_row ''P'' ''    Ph'' ''3'' (1 / 2),
      report_row ''G'' ''      Ge'' ''4'' (1 / 2), report_row ''R'' ''root'' ''1'' (1 / 2)] = Inr (tree, 7) \<and>
      children_of tree 5 = [TreeNode 6 (Some ''4'') (Some 0) (Some True) []])"
proof -
  let ?df = "[report_row ''D'' ''  Bacteria'' ''2'' (1 / 2), report_row ''P'' ''    Ph'' ''3'' (1 / 2),
      report_row ''G'' ''      Ge'' ''4'' (1 / 2), report_row ''R'' ''root'' ''1'' (1 / 2)]"
  let ?tree = "TreeNode 0 None None None
       [TreeNode 1 (Some ''d__Bacteria'') (Some 1) None
         [TreeNode 2 (Some ''2'') (Some 0) (Some False) [],
          TreeNode 3 (Some ''p__Ph'') (Some 1) None
           [TreeNode 4 (Some ''3'') (Some 0) (Some False) [],
            TreeNode 5 (Some ''g__Ge'') (Some 1) None
             [TreeNode 6 (Some ''4'') (Some 0) (Some False) []]]]]"
  let ?stack = "[(3, 5), (2, 3), (1, 1), (0, 0)] :: (nat \<times> nat) list"
  have h1: "process_rows (initial_builder 0) ?df = Inr (?tree, ?stack, 7)"
    by (simp add: eval_defs)
  have h2: "kept_rows ?df \<noteq> []"
    by (simp add: kept_rows_def eval_defs)
  have "last (kept_rows ?df) = report_row ''G'' ''      Ge'' ''4'' (1 / 2)"
    by (simp add: kept_rows_def eval_defs)
  with last_row_is_tip[OF h1 h2] h1 show ?thesis by (simp add: report_row_def)
qed

lemma built_tree_names:
  assumes "kraken_to_ncbi_tree r
             (filter (\<lambda>row. coverage_threshold \<le> row_perc_frags_covered row) df) = Inr (tree, fresh')"
  shows "node_names tree =
           None # concat (map row_names
             (filter (\<lambda>row. coverage_threshold \<le> row_perc_frags_covered row \<and>
                 row_rank row \<noteq> ''U'' \<and> row_rank row \<noteq> ''R'' \<and>
                 \<not> (1 < length (row_rank row) \<and> \<not> startswith (row_rank row) ''S'')) df))"
proof -
  let ?filtered = "filter (\<lambda>row. coverage_threshold \<le> row_perc_frags_covered row) df"
  from kraken_to_ncbi_tree_Inr[OF assms] obtain tree0 stack where
    run: "process_rows (initial_builder r) ?filtered = Inr (tree0, stack, fresh')" by blast
  obtain t0 s0 f0 where ib: "initial_builder r = (t0, s0, f0)" by (cases "initial_builder r")
  have i0: "builder_inv (t0, s0, f0)" using inv_initial[of r] ib by simp
  from run ib have run0: "process_rows (t0, s0, f0) ?filtered = Inr (tree0, stack, fresh')" by simp
  from ib have t0: "node_names t0 = [None]" by (auto simp: initial_builder_def node_names_def)
  from process_rows_inv(2)[OF i0 run0] t0
  have nm0: "node_names tree0 = None # concat (map row_names (kept_rows ?filtered))" by simp
  from kraken_to_ncbi_tree_final(2)[OF run] assms
  have "tree = (if children_of tree0 (snd (hd stack)) \<noteq> []
                then modify set_first_child_tip (snd (hd stack)) tree0 else tree0)" by simp
  then have "node_names tree = node_names tree0"
    by (simp add: node_names_def names_modify_mark(1))
  moreover have "kept_rows ?filtered =
      filter (\<lambda>row. coverage_threshold \<le> row_perc_frags_covered row \<and>
                 row_rank row \<noteq> ''U'' \<and> row_rank row \<noteq> ''R'' \<and>
                 \<not> (1 < length (row_rank row) \<and> \<not> startswith (row_rank row) ''S'')) df"
    unfolding kept_rows_def filter_filter skipped_def by (rule filter_cong) auto
  ultimately show ?thesis using nm0 by simp
qed

section \<open>The merger and the entry point on concrete reports\<close>

lemmas merge_defs = select_kraken_features_def combine_ncbi_trees_def find_node_def named_tips_def
  is_tip_def tips_def deref_def name_of_def ancestors_def append_to_def ncbi_tree_to_tips_def
  to_taxonomy_def pad_ranks_def order_def

text \<open>
  Claim C9 as stated fails: with no reports the entry point raises the \<^verbatim>\<open>IndexError\<close> of
  \<^verbatim>\<open>trees[0]\<close>, the same exception that a report with a kept row of indentation 0
  raises from the builder; no error kind of its own marks the empty input.
\<close>

theorem select_kraken_features_empty_is_plain_index_error:
  "select_kraken_features [] (1 / 10) = Inl IndexError \<and>
   select_kraken_features [(''a'', [report_row ''D'' ''Bacteria'' ''2'' (1 / 2)])] (1 / 10) =
     Inl IndexError"
  by (simp add: merge_defs eval_defs)

text \<open>
  Claim C9, amended. With no reports at all, \<^verbatim>\<open>select_kraken_features\<close> raises
  \<^verbatim>\<open>IndexError\<close>, from \<^verbatim>\<open>trees[0]\<close> in \<^verbatim>\<open>_combine_ncbi_trees\<close>, for every threshold.
\<close>

theorem select_kraken_features_empty:
  "select_kraken_features [] coverage_threshold = Inl IndexError"
  by (simp add: select_kraken_features_def combine_ncbi_trees_def)

text \<open>
  Claim C2 fails on the code. Two samples hold one row each, the same rank and name
  with the taxon identifiers 1 and 2. For the tip 2 of the second tree the walk finds the
  only ancestor by its name in the accumulating tree and appends nothing, so the merged
  tree and the taxonomy have no node for the identifier 2, which the feature table lists
  for the second sample.
\<close>

theorem combine_drops_tip_of_known_name:
  "select_kraken_features
     [(''a'', [report_row ''D'' ''  X'' ''1'' (1 / 2)]),
      (''b'', [report_row ''D'' ''  X'' ''2'' (1 / 2)])] (1 / 10) =
   Inr ([(''a'', [Some ''1'']), (''b'', [Some ''2''])],
        [(Some ''1'', ''d__X'')],
        TreeNode 0 None None None
          [TreeNode 1 (Some ''d__X'') (Some 1) None
             [TreeNode 2 (Some ''1'') (Some 0) (Some True) []]])"
  by (simp add: merge_defs eval_defs)

section \<open>The coverage filter of the entry point\<close>

text \<open>
  Claim C6. Whenever the loop of \<^verbatim>\<open>select_kraken_features\<close> over the reports completes,
  the nodes below the root of each sample's tree are, in pre-order, a rank node and its
  identifier node for each row of the sample's report whose coverage is at least the
  threshold and whose rank is not \<^verbatim>\<open>U\<close>, not \<^verbatim>\<open>R\<close>, and not (longer than one letter and
  not starting with \<^verbatim>\<open>S\<close>), in the order of the report, and no other node. The filter is
  a pure function of the rows.
\<close>

theorem rows_contribute_nodes:
  assumes "build_samples fresh coverage_threshold reports = Inr (rows, trees)"
  shows "map node_names trees =
           map (\<lambda>(sample_id, df). None # concat (map row_names
                  (filter (\<lambda>row. coverage_threshold \<le> row_perc_frags_covered row \<and>
                      row_rank row \<noteq> ''U'' \<and> row_rank row \<noteq> ''R'' \<and>
                      \<not> (1 < length (row_rank row) \<and> \<not> startswith (row_rank row) ''S'')) df)))
               reports"
  using assms
proof (induction reports arbitrary: fresh rows trees)
  case Nil
  then show ?case by simp
next
  case (Cons report reports)
  obtain sample_id df where report: "report = (sample_id, df)" by (cases report)
  from Cons.prems obtain tree fresh' rows' trees' where
    built: "kraken_to_ncbi_tree fresh
              (filter (\<lambda>row. coverage_threshold \<le> row_perc_frags_covered row) df) = Inr (tree, fresh')"
    and rest: "build_samples fresh' coverage_threshold reports = Inr (rows', trees')"
    and trees: "trees = tree # trees'"
    unfolding report by (auto split: sum.splits prod.splits)
  from built_tree_names[OF built] Cons.IH[OF rest] show ?case
    by (simp add: report trees)
qed

theorem rows_contribute_nodes_witness:
  "build_samples 0 (1 / 10)
     [(''a'',
       [report_row ''U'' ''unclassified'' ''0'' (1 / 2), report_row ''R'' ''root'' ''1'' (1 / 2),
        report_row ''D'' ''  Bacteria'' ''2'' (1 / 2), report_row ''D1'' ''    Clade'' ''7'' (1 / 2),
        report_row ''P'' ''    Ph'' ''3'' (1 / 20), report_row ''S'' ''      Sp'' ''4'' (1 / 2),
        report_row ''S1'' ''        St'' ''5'' (1 / 2)])] =
     Inr ([(''a'', [Some ''5''])],
          [TreeNode 0 None None None
            [TreeNode 1 (Some ''d__Bacteria'') (Some 1) None
              [TreeNode 2 (Some ''2'') (Some 0) (Some False) [],
               TreeNode 3 (Some ''s__Sp'') (Some 1) None
                [TreeNode 4 (Some ''4'') (Some 0) (Some False) [],
                 TreeNode 5 (Some ''s1__St'') (Some 1) None
                  [TreeNode 6 (Some ''5'') (Some 0) (Some True) []]]]]]) \<and>
   map node_names
     [TreeNode 0 None None None
       [TreeNode 1 (Some ''d__Bacteria'') (Some 1) None
         [TreeNode 2 (Some ''2'') (Some 0) (Some False) [],
          TreeNode 3 (Some ''s__Sp'') (Some 1) None
           [TreeNode 4 (Some ''4'') (Some 0) (Some False) [],
            TreeNode 5 (Some ''s1__St'') (Some 1) None
             [TreeNode 6 (Some ''5'') (Some 0) (Some True) []]]]]] =
     [[None, Some ''d__Bacteria'', Some ''2'', Some ''s__Sp'', Some ''4'', Some ''s1__St'', Some ''5'']]"
proof -
  let ?df = "[report_row ''U'' ''unclassified'' ''0'' (1 / 2), report_row ''R'' ''root'' ''1'' (1 / 2),
       report_row ''D'' ''  Bacteria'' ''2'' (1 / 2), report_row ''D1'' ''    Clade'' ''7'' (1 / 2),
       report_row ''P'' ''    Ph'' ''3'' (1 / 20), report_row ''S'' ''      Sp'' ''4'' (1 / 2),
       report_row ''S1'' ''        St'' ''5'' (1 / 2)]"
  let ?tree = "TreeNode 0 None None None
       [TreeNode 1 (Some ''d__Bacteria'') (Some 1) None
         [TreeNode 2 (Some ''2'') (Some 0) (Some False) [],
          TreeNode 3 (Some ''s__Sp'') (Some 1) None
           [TreeNode 4 (Some ''4'') (Some 0) (Some False) [],
            TreeNode 5 (Some ''s1__St'') (Some 1) None
             [TreeNode 6 (Some ''5'') (Some 0) (Some True) []]]]]"
  have h: "build_samples 0 (1 / 10) [(''a'', ?df)] = Inr ([(''a'', [Some ''5''])], [?tree])"
    by (simp add: merge_defs eval_defs)
  from rows_contribute_nodes[OF h] h show ?thesis
    by (simp add: report_row_def row_names_def startswith_def lower_def lower_char_def strip_def whitespace_def)
qed

section \<open>Search by name\<close>

lemma postorder_list_append: "postorder_list (xs @ ys) = postorder_list xs @ postorder_list ys"
  by (induction xs) auto

lemma erase_list_map: "erase_list cs = map erase cs"
  by (induction cs) auto

lemma erase_fields: "name (erase n) = name n" "is_tip (erase n) = is_tip n"
  by (cases n; cases "children n"; simp add: is_tip_def)+

lemma postorder_erase:
  "postorder (erase t) = map erase (postorder t)"
  "postorder_list (erase_list cs) = map erase (postorder_list cs)"
  by (induction t and cs rule: postorder_postorder_list.induct) auto

lemma names_filter_erase:
  "map name (filter P' (map erase xs)) = map name (filter P xs)"
  if "\<And>x. P' (erase x) = P x"
  using that by (induction xs) (auto simp: erase_fields)

lemma tip_names_erase:
  "map name (filter is_tip (postorder (erase t))) = map name (filter is_tip (postorder t))"
  unfolding postorder_erase by (rule names_filter_erase) (rule erase_fields)

lemma tips_erase:
  "map name (tips (erase t)) = map name (tips t)"
proof -
  obtain i n l tp cs where t: "t = TreeNode i n l tp cs" by (cases t)
  show ?thesis unfolding t tips_def
    by (simp add: postorder_erase) (rule names_filter_erase, rule erase_fields)
qed

lemma nonroot_names_erase:
  "map name (postorder_list (children (erase t))) = map name (postorder_list (children t))"
proof -
  obtain i n l tp cs where t: "t = TreeNode i n l tp cs" by (cases t)
  show ?thesis unfolding t by (simp add: postorder_erase erase_fields)
qed

lemma postorder_idents:
  "node \<in> set (postorder t) \<Longrightarrow> ident node \<in> fst ` set (pre t)"
  "node \<in> set (postorder_list cs) \<Longrightarrow> ident node \<in> fst ` set (pre_list cs)"
  by (induction t and cs rule: postorder_postorder_list.induct) auto

lemma lookup_postorder:
  "distinct (map fst (pre t)) \<Longrightarrow> node \<in> set (postorder t) \<Longrightarrow> lookup t (ident node) = Some node"
  "distinct (map fst (pre_list cs)) \<Longrightarrow> node \<in> set (postorder_list cs) \<Longrightarrow>
     lookup_list cs (ident node) = Some node"
proof (induction t and cs rule: postorder_postorder_list.induct)
  case (1 i n l t cs)
  show ?case
  proof (cases "node = TreeNode i n l t cs")
    case True
    then show ?thesis by simp
  next
    case False
    with "1.prems" have in_cs: "node \<in> set (postorder_list cs)" by simp
    from postorder_idents(2)[OF this] "1.prems"(1) have "i \<noteq> ident node" by auto
    with "1.IH" "1.prems"(1) in_cs show ?thesis by simp
  qed
next
  case 2
  then show ?case by simp
next
  case (3 c cs)
  from "3.prems"(1) have d0: "distinct (map fst (pre c))" and d1: "distinct (map fst (pre_list cs))"
    and disj: "fst ` set (pre c) \<inter> fst ` set (pre_list cs) = {}" by auto
  show ?case
  proof (cases "node \<in> set (postorder c)")
    case True
    from "3.IH"(1)[OF d0 True] show ?thesis by simp
  next
    case False
    with "3.prems"(2) have in_cs: "node \<in> set (postorder_list cs)" by simp
    from postorder_idents(2)[OF this] disj have "ident node \<notin> fst ` set (pre c)" by auto
    then have "lookup c (ident node) = None" by (simp add: lookup_absent)
    with "3.IH"(2)[OF d1 in_cs] show ?thesis by simp
  qed
qed

lemma find_node_tip:
  assumes "distinct (map name (named_tips full))"
    and "Some n \<in> name ` set (filter is_tip (postorder full))"
  shows "\<exists>found. find_node full (Some n) = Inr found"
proof -
  from assms(2) have "\<exists>x\<in>set (filter is_tip (postorder full)). Some n \<noteq> None \<and> name x = Some n"
    by auto
  then obtain node where
    "List.find (\<lambda>node. Some n \<noteq> None \<and> name node = Some n) (filter is_tip (postorder full)) = Some node"
    by (metis (mono_tags, lifting) find_None_iff2 not_Some_eq)
  with assms(1) show ?thesis by (simp add: find_node_def)
qed

lemma merge_tips_all_found:
  "\<forall>j\<in>set js. \<exists>found. find_node (fst st) (name_of st j) = Inr found \<Longrightarrow> merge_tips st js = Inr st"
  by (induction js) auto

section \<open>Merging a tree with a copy of itself\<close>

text \<open>
  Claim C3 as stated fails for a tree in which two identifier nodes have the same name:
  the report below lists the taxon identifier 1 twice, \<^verbatim>\<open>full_tree.find\<close> raises
  \<^verbatim>\<open>DuplicateNodeError\<close> while it builds the cache of tips, and the merge of the tree with
  a second copy built from the same rows raises instead of returning the tree.
\<close>

theorem combine_copy_duplicate_tips_raises:
  "kraken_to_ncbi_tree 0 [report_row ''D'' ''  A'' ''1'' (1 / 2), report_row ''D'' ''  B'' ''1'' (1 / 2)] =
     Inr (TreeNode 0 None None None
            [TreeNode 1 (Some ''d__A'') (Some 1) None [TreeNode 2 (Some ''1'') (Some 0) (Some True) []],
             TreeNode 3 (Some ''d__B'') (Some 1) None [TreeNode 4 (Some ''1'') (Some 0) (Some True) []]],
          5) \<and>
   kraken_to_ncbi_tree 5 [report_row ''D'' ''  A'' ''1'' (1 / 2), report_row ''D'' ''  B'' ''1'' (1 / 2)] =
     Inr (TreeNode 5 None None None
            [TreeNode 6 (Some ''d__A'') (Some 1) None [TreeNode 7 (Some ''1'') (Some 0) (Some True) []],
             TreeNode 8 (Some ''d__B'') (Some 1) None [TreeNode 9 (Some ''1'') (Some 0) (Some True) []]],
          10) \<and>
   combine_ncbi_trees
     [TreeNode 0 None None None
        [TreeNode 1 (Some ''d__A'') (Some 1) None [TreeNode 2 (Some ''1'') (Some 0) (Some True) []],
         TreeNode 3 (Some ''d__B'') (Some 1) None [TreeNode 4 (Some ''1'') (Some 0) (Some True) []]],
      TreeNode 5 None None None
        [TreeNode 6 (Some ''d__A'') (Some 1) None [TreeNode 7 (Some ''1'') (Some 0) (Some True) []],
         TreeNode 8 (Some ''d__B'') (Some 1) None [TreeNode 9 (Some ''1'') (Some 0) (Some True) []]]] =
     Inl DuplicateNodeError"
  by (simp add: merge_defs eval_defs)

text \<open>
  Claim C3, amended. Let \<open>full_tree\<close> be a tree whose tips have pairwise distinct names
  and whose nodes below the root all have a name, and let \<open>tree\<close> be a second copy of it:
  structurally identical, made of objects of its own. Then \<^verbatim>\<open>_combine_ncbi_trees\<close> of the
  two returns \<open>full_tree\<close> as it was: no node is duplicated and no subtree is appended.
\<close>

theorem combine_copy_idempotent:
  assumes copy: "erase tree = erase full_tree"
    and objects: "distinct (map fst (pre tree))"
    and tip_names: "distinct (map name (named_tips full_tree))"
    and named: "\<forall>node\<in>set (postorder_list (children full_tree)). name node \<noteq> None"
  shows "combine_ncbi_trees [full_tree, tree] = Inr full_tree"
proof -
  have "\<forall>j\<in>set (map ident (tips tree)).
          \<exists>found. find_node (fst (full_tree, tree)) (name_of (full_tree, tree) j) = Inr found"
  proof
    fix j assume "j \<in> set (map ident (tips tree))"
    then obtain node where node: "node \<in> set (tips tree)" and j: "j = ident node" by auto
    obtain i n l tp cs where tree: "tree = TreeNode i n l tp cs" by (cases tree)
    from node have in_cs: "node \<in> set (postorder_list (children tree))" and tip: "is_tip node"
      by (simp_all add: tips_def)
    then have in_post: "node \<in> set (postorder tree)" by (simp add: tree)
    from lookup_postorder(1)[OF objects in_post] j
    have nm: "name_of (full_tree, tree) j = name node" by (simp add: name_of_def deref_def)
    from in_cs have "name node \<in> set (map name (postorder_list (children tree)))" by simp
    also have "\<dots> = set (map name (postorder_list (children full_tree)))"
      using nonroot_names_erase[of tree] nonroot_names_erase[of full_tree] copy by simp
    finally obtain n' where n': "name node = Some n'" using named by auto
    from in_post tip have "name node \<in> set (map name (filter is_tip (postorder tree)))" by simp
    also have "\<dots> = set (map name (filter is_tip (postorder full_tree)))"
      using tip_names_erase[of tree] tip_names_erase[of full_tree] copy by simp
    finally have "Some n' \<in> name ` set (filter is_tip (postorder full_tree))" using n' by simp
    from find_node_tip[OF tip_names this] nm n'
    show "\<exists>found. find_node (fst (full_tree, tree)) (name_of (full_tree, tree) j) = Inr found"
      by simp
  qed
  then have "merge_tips (full_tree, tree) (map ident (tips tree)) = Inr (full_tree, tree)"
    by (rule merge_tips_all_found)
  then show ?thesis by (simp add: combine_ncbi_trees_def)
qed

theorem combine_copy_idempotent_witness:
  "combine_ncbi_trees
     [TreeNode 0 None None None
        [TreeNode 1 (Some ''d__A'') (Some 1) None
           [TreeNode 2 (Some ''1'') (Some 0) (Some False) [],
            TreeNode 3 (Some ''p__B'') (Some 1) None [TreeNode 4 (Some ''3'') (Some 0) (Some True) []]]],
      TreeNode 5 None None None
        [TreeNode 6 (Some ''d__A'') (Some 1) None
           [TreeNode 7 (Some ''1'') (Some 0) (Some False) [],
            TreeNode 8 (Some ''p__B'') (Some 1) None [TreeNode 9 (Some ''3'') (Some 0) (Some True) []]]]] =
   Inr (TreeNode 0 None None None
        [TreeNode 1 (Some ''d__A'') (Some 1) None
           [TreeNode 2 (Some ''1'') (Some 0) (Some False) [],
            TreeNode 3 (Some ''p__B'') (Some 1) None [TreeNode 4 (Some ''3'') (Some 0) (Some True) []]]])"
proof -
  let ?full = "TreeNode 0 None None None
        [TreeNode 1 (Some ''d__A'') (Some 1) None
           [TreeNode 2 (Some ''1'') (Some 0) (Some False) [],
            TreeNode 3 (Some ''p__B'') (Some 1) None [TreeNode 4 (Some ''3'') (Some 0) (Some True) []]]]"
  let ?tree = "TreeNode 5 None None None
        [TreeNode 6 (Some ''d__A'') (Some 1) None
           [TreeNode 7 (Some ''1'') (Some 0) (Some False) [],
            TreeNode 8 (Some ''p__B'') (Some 1) None [TreeNode 9 (Some ''3'') (Some 0) (Some True) []]]]"
  have h1: "erase ?tree = erase ?full" by simp
  have h2: "distinct (map fst (pre ?tree))" by simp
  have h3: "distinct (map name (named_tips ?full))" by (simp add: named_tips_def is_tip_def)
  have h4: "\<forall>node\<in>set (postorder_list (children ?full)). name node \<noteq> None" by simp
  from combine_copy_idempotent[OF h1 h2 h3 h4] show ?thesis .
qed

section \<open>Detaching and grafting subtrees\<close>

lemma detach_absent:
  "j \<notin> fst ` set (pre t) \<Longrightarrow> detach j t = t"
  "j \<notin> fst ` set (pre_list cs) \<Longrightarrow> detach_list j cs = cs"
proof (induction j t and j cs rule: detach_detach_list.induct)
  case (3 j c cs)
  from "3.prems" have "j \<notin> fst ` set (pre c)" and "j \<notin> fst ` set (pre_list cs)" by auto
  moreover from this have "ident c \<noteq> j" using ident_in_pre[of c] by auto
  ultimately show ?case using 3 by simp
qed auto

lemma lookup_in_pre:
  "lookup t j = Some node \<Longrightarrow> j \<in> fst ` set (pre t)"
  using lookup_absent(1)[of t j] by auto

lemma lookup_list_in_pre:
  "lookup_list cs j = Some node \<Longrightarrow> j \<in> fst ` set (pre_list cs)"
  using lookup_absent(2)[of cs j] by auto

lemma lookup_idents_subset:
  "lookup t j = Some node \<Longrightarrow> fst ` set (pre node) \<subseteq> fst ` set (pre t)"
  "lookup_list cs j = Some node \<Longrightarrow> fst ` set (pre node) \<subseteq> fst ` set (pre_list cs)"
  using lookup_Some by blast+

lemma detach_removes:
  "distinct (map fst (pre t)) \<Longrightarrow> lookup t q = Some sub \<Longrightarrow> q \<noteq> ident t \<Longrightarrow>
     fst ` set (pre (detach q t)) \<inter> fst ` set (pre sub) = {}"
  "distinct (map fst (pre_list cs)) \<Longrightarrow> lookup_list cs q = Some sub \<Longrightarrow>
     fst ` set (pre_list (detach_list q cs)) \<inter> fst ` set (pre sub) = {}"
proof (induction q t and q cs rule: detach_detach_list.induct)
  case (1 j i n l t cs)
  from "1.prems" have lk: "lookup_list cs j = Some sub" and d: "distinct (map fst (pre_list cs))"
    and ni: "i \<notin> fst ` set (pre_list cs)" by auto
  from lookup_idents_subset(2)[OF lk] ni have "i \<notin> fst ` set (pre sub)" by auto
  with "1.IH"[OF d lk] show ?case by simp
next
  case (2 j)
  then show ?case by simp
next
  case (3 j c cs)
  from "3.prems"(1) have d0: "distinct (map fst (pre c))" and d1: "distinct (map fst (pre_list cs))"
    and disj: "fst ` set (pre c) \<inter> fst ` set (pre_list cs) = {}" by auto
  show ?case
  proof (cases "ident c = j")
    case True
    with "3.prems"(2) have "sub = c" using lookup_self[of c] by simp
    with True disj show ?thesis by auto
  next
    case False
    show ?thesis
    proof (cases "lookup c j")
      case None
      with "3.prems"(2) have lk: "lookup_list cs j = Some sub" by simp
      from None have "j \<notin> fst ` set (pre c)" by (simp add: lookup_absent)
      then have same: "detach j c = c" by (rule detach_absent)
      from lookup_idents_subset(2)[OF lk] disj have "fst ` set (pre c) \<inter> fst ` set (pre sub) = {}"
        by auto
      with "3.IH"(2)[OF False d1 lk] same False show ?thesis by auto
    next
      case (Some x)
      with "3.prems"(2) have lk: "lookup c j = Some sub" by simp
      from lookup_in_pre[OF lk] disj have "j \<notin> fst ` set (pre_list cs)" by auto
      then have same: "detach_list j cs = cs" by (rule detach_absent)
      from lookup_idents_subset(1)[OF lk] disj have "fst ` set (pre_list cs) \<inter> fst ` set (pre sub) = {}"
        by auto
      with "3.IH"(1)[OF False d0 lk] False same show ?thesis by auto
    qed
  qed
qed

lemma lookup_graft:
  "distinct (map fst (pre t)) \<Longrightarrow> r \<notin> fst ` set (pre t) \<Longrightarrow> m \<in> fst ` set (pre t) \<Longrightarrow>
     lookup (modify (append_child sub) m t) r = lookup sub r"
  "distinct (map fst (pre_list ts)) \<Longrightarrow> r \<notin> fst ` set (pre_list ts) \<Longrightarrow>
     m \<in> fst ` set (pre_list ts) \<Longrightarrow>
     lookup_list (modify_list (append_child sub) m ts) r = lookup sub r"
proof (induction "append_child sub" m t and "append_child sub" m ts rule: modify_modify_list.induct)
  case (1 j i n l t cs)
  show ?case
  proof (cases "i = j")
    case True
    from "1.prems"(2) have ni: "i \<noteq> r" and "r \<notin> fst ` set (pre_list cs)" by auto
    then have "lookup_list cs r = None" by (simp add: lookup_absent)
    then show ?thesis using True ni
      by (simp add: append_child_def lookup_list_append split: option.splits)
  next
    case False
    with "1.prems" have "j \<in> fst ` set (pre_list cs)" and "r \<notin> fst ` set (pre_list cs)"
      and "i \<noteq> r" and "distinct (map fst (pre_list cs))" by auto
    with "1.hyps"[OF False] False show ?thesis by simp
  qed
next
  case (2 j)
  then show ?case by simp
next
  case (3 j c0 cs0)
  from "3.prems"(2) have a0: "r \<notin> fst ` set (pre c0)" and a1: "r \<notin> fst ` set (pre_list cs0)"
    by auto
  from "3.prems"(1) have d0: "distinct (map fst (pre c0))" and d1: "distinct (map fst (pre_list cs0))"
    and disj: "fst ` set (pre c0) \<inter> fst ` set (pre_list cs0) = {}" by auto
  show ?case
  proof (cases "j \<in> fst ` set (pre c0)")
    case True
    with disj have "j \<notin> fst ` set (pre_list cs0)" by auto
    then have same: "modify_list (append_child sub) j cs0 = cs0" by (rule modify_absent)
    from a1 have "lookup_list cs0 r = None" by (simp add: lookup_absent)
    with "3.hyps"(1)[OF d0 a0 True] same show ?thesis by (simp split: option.splits)
  next
    case False
    then have same: "modify (append_child sub) j c0 = c0" by (rule modify_absent)
    from a0 have none: "lookup c0 r = None" by (simp add: lookup_absent)
    from False "3.prems"(3) have "j \<in> fst ` set (pre_list cs0)" by auto
    from "3.hyps"(2)[OF d1 a1 this] same none show ?thesis by simp
  qed
qed

lemma postorder_self: "t \<in> set (postorder t)"
  by (cases t) simp

lemma postorder_sub:
  "node \<in> set (postorder t) \<Longrightarrow> set (postorder node) \<subseteq> set (postorder t)"
  "node \<in> set (postorder_list cs) \<Longrightarrow> set (postorder node) \<subseteq> set (postorder_list cs)"
  by (induction t and cs rule: postorder_postorder_list.induct) auto

lemma lookup_in_postorder:
  "lookup t j = Some node \<Longrightarrow> node \<in> set (postorder t)"
  "lookup_list cs j = Some node \<Longrightarrow> node \<in> set (postorder_list cs)"
  by (induction t j and cs j rule: lookup_lookup_list.induct)
     (auto split: option.splits if_splits)

lemma lookup_nonroot:
  "lookup t j = Some node \<Longrightarrow> j \<noteq> ident t \<Longrightarrow> node \<in> set (postorder_list (children t))"
  by (cases t) (auto simp: lookup_in_postorder(2))

lemma postorder_graft:
  "m \<in> fst ` set (pre t) \<Longrightarrow> set (postorder sub) \<subseteq> set (postorder (modify (append_child sub) m t))"
  "m \<in> fst ` set (pre_list ts) \<Longrightarrow>
     set (postorder sub) \<subseteq> set (postorder_list (modify_list (append_child sub) m ts))"
proof (induction "append_child sub" m t and "append_child sub" m ts rule: modify_modify_list.induct)
  case (1 j i n l t cs)
  show ?case
  proof (cases "i = j")
    case True
    then show ?thesis by (auto simp: append_child_def postorder_list_append)
  next
    case False
    with "1.prems" have "j \<in> fst ` set (pre_list cs)" by auto
    with "1.hyps"[OF False] False show ?thesis by auto
  qed
next
  case (2 j)
  then show ?case by simp
next
  case (3 j c0 cs0)
  then show ?case by auto
qed

section \<open>Paths to a node\<close>

lemma path_idents:
  "path_to j t = Some p \<Longrightarrow> j \<in> fst ` set (pre t) \<and> (p \<noteq> [] \<longrightarrow> hd p = ident t \<and>
      set (tl p) \<subseteq> fst ` set (pre_list (children t)) \<and> j \<in> fst ` set (pre_list (children t)))"
  "path_to_list j cs = Some p \<Longrightarrow> j \<in> fst ` set (pre_list cs) \<and> set p \<subseteq> fst ` set (pre_list cs)"
proof (induction j t and j cs arbitrary: p and p rule: path_to_path_to_list.induct)
  case (1 j i n l t cs)
  then show ?case by (auto split: if_splits option.splits)
next
  case (2 j)
  then show ?case by simp
next
  case (3 j c cs)
  show ?case
  proof (cases "path_to j c")
    case None
    with 3 show ?thesis by auto
  next
    case (Some p')
    with "3.prems" have pp: "p = p'" by simp
    from "3.IH"(1)[OF Some] have a: "j \<in> fst ` set (pre c)"
      and b: "p' \<noteq> [] \<longrightarrow> hd p' = ident c \<and> set (tl p') \<subseteq> fst ` set (pre_list (children c))"
      by auto
    have "set p' \<subseteq> fst ` set (pre c)"
    proof (cases p')
      case Nil
      then show ?thesis by simp
    next
      case (Cons x xs)
      with b have "x = ident c" and "set xs \<subseteq> fst ` set (pre_list (children c))" by auto
      moreover have "fst ` set (pre_list (children c)) \<subseteq> fst ` set (pre c)" by (cases c) auto
      ultimately show ?thesis using Cons ident_in_pre[of c] by auto
    qed
    with a pp show ?thesis by auto
  qed
qed

lemma path_absent:
  "(path_to j t = None) = (j \<notin> fst ` set (pre t))"
  "(path_to_list j cs = None) = (j \<notin> fst ` set (pre_list cs))"
  by (induction j t and j cs rule: path_to_path_to_list.induct) (auto split: option.splits)

section \<open>The ancestor walk\<close>

lemma path_descends:
  "distinct (map fst (pre t)) \<Longrightarrow> path_to j t = Some (p1 @ q # p2) \<Longrightarrow>
     \<exists>sub. lookup t q = Some sub \<and> set p2 \<subseteq> fst ` set (pre_list (children sub)) \<and>
           j \<in> fst ` set (pre_list (children sub))"
  "distinct (map fst (pre_list cs)) \<Longrightarrow> path_to_list j cs = Some (p1 @ q # p2) \<Longrightarrow>
     \<exists>sub. lookup_list cs q = Some sub \<and> set p2 \<subseteq> fst ` set (pre_list (children sub)) \<and>
           j \<in> fst ` set (pre_list (children sub))"
proof (induction j t and j cs arbitrary: p1 and p1 rule: path_to_path_to_list.induct)
  case (1 j i n l t cs)
  from "1.prems"(2) obtain p where ij: "i \<noteq> j" and pl: "path_to_list j cs = Some p"
    and eq: "i # p = p1 @ q # p2"
    by (auto split: if_splits option.splits)
  from "1.prems"(1) have d: "distinct (map fst (pre_list cs))" and ni: "i \<notin> fst ` set (pre_list cs)"
    by auto
  show ?case
  proof (cases p1)
    case Nil
    with eq have "q = i" "p2 = p" by auto
    with path_idents(2)[OF pl] show ?thesis by simp
  next
    case (Cons x p1')
    with eq have p: "p = p1' @ q # p2" by simp
    from "1.IH"[OF ij d pl[unfolded p]] obtain sub where
      lk: "lookup_list cs q = Some sub" and
      rest: "set p2 \<subseteq> fst ` set (pre_list (children sub))" "j \<in> fst ` set (pre_list (children sub))"
      by blast
    from lookup_list_in_pre[OF lk] ni have "i \<noteq> q" by auto
    with lk rest show ?thesis by simp
  qed
next
  case (2 j)
  then show ?case by simp
next
  case (3 j c cs)
  from "3.prems"(1) have d0: "distinct (map fst (pre c))" and d1: "distinct (map fst (pre_list cs))"
    and disj: "fst ` set (pre c) \<inter> fst ` set (pre_list cs) = {}" by auto
  show ?case
  proof (cases "path_to j c")
    case None
    with "3.prems"(2) have pl: "path_to_list j cs = Some (p1 @ q # p2)" by simp
    from "3.IH"(2)[OF None d1 pl] obtain sub where
      lk: "lookup_list cs q = Some sub" and
      rest: "set p2 \<subseteq> fst ` set (pre_list (children sub))" "j \<in> fst ` set (pre_list (children sub))"
      by blast
    from lookup_list_in_pre[OF lk] disj have "q \<notin> fst ` set (pre c)" by auto
    then have "lookup c q = None" by (simp add: lookup_absent)
    with lk rest show ?thesis by simp
  next
    case (Some p')
    with "3.prems"(2) have "path_to j c = Some (p1 @ q # p2)" by simp
    from "3.IH"(1)[OF d0 this] show ?thesis by auto
  qed
qed

lemma find_in_filter:
  "List.find P (filter Q xs) = Some node \<Longrightarrow> node \<in> set xs"
  by (induction xs) (auto split: if_splits)

lemma find_not_None:
  "x \<in> set xs \<Longrightarrow> P x \<Longrightarrow> List.find P xs \<noteq> None"
  by (induction xs) auto

lemma find_node_cases:
  "find_node full nm = Inl DuplicateNodeError \<or> find_node full nm = Inl MissingNodeError \<or>
   (\<exists>node\<in>set (postorder full). find_node full nm = Inr (ident node))"
  unfolding find_node_def
  by (auto split: option.splits dest: find_in_filter)

lemma find_node_present:
  assumes "Some n \<in> name ` set (postorder full)"
  shows "find_node full (Some n) \<noteq> Inl MissingNodeError"
proof -
  let ?P = "\<lambda>node. Some n \<noteq> None \<and> name node = Some n"
  from assms obtain node where node: "node \<in> set (postorder full)" "name node = Some n" by auto
  have "List.find ?P (filter is_tip (postorder full)) \<noteq> None \<or>
        List.find ?P (filter (\<lambda>node. \<not> is_tip node) (postorder full)) \<noteq> None"
  proof (cases "is_tip node")
    case True
    with node have "node \<in> set (filter is_tip (postorder full))" and "?P node" by auto
    from find_not_None[of node _ ?P, OF this] show ?thesis by blast
  next
    case False
    with node have "node \<in> set (filter (\<lambda>node. \<not> is_tip node) (postorder full))" and "?P node"
      by auto
    from find_not_None[of node _ ?P, OF this] show ?thesis by blast
  qed
  then show ?thesis unfolding find_node_def by (auto split: option.splits)
qed

lemma walk_all_present:
  "\<forall>r\<in>set rest. \<exists>n. name_of st r = Some n \<and> Some n \<in> name ` set (postorder (fst st)) \<Longrightarrow>
     walk st m rest = Inl DuplicateNodeError \<or> walk st m rest = Inr st"
proof (induction rest arbitrary: m)
  case Nil
  then show ?case by simp
next
  case (Cons r rest)
  from Cons.prems obtain n where n: "name_of st r = Some n"
    and present: "Some n \<in> name ` set (postorder (fst st))" by auto
  from find_node_cases[of "fst st" "Some n"] find_node_present[OF present]
  consider "find_node (fst st) (Some n) = Inl DuplicateNodeError"
    | found where "find_node (fst st) (Some n) = Inr found" by auto
  then show ?case
  proof cases
    case 1
    with n show ?thesis by simp
  next
    case 2
    from Cons.IH[of found] Cons.prems have
      "walk st found rest = Inl DuplicateNodeError \<or> walk st found rest = Inr st" by simp
    with 2 n show ?thesis by simp
  qed
qed

lemma graft_names:
  assumes dist: "distinct (map fst (pre full) @ map fst (pre tree))"
    and named: "\<forall>node\<in>set (postorder_list (children tree)). name node \<noteq> None"
    and lk: "lookup tree q = Some sub" and qroot: "q \<noteq> ident tree"
    and r: "r \<in> fst ` set (pre_list (children sub))"
    and m: "m \<in> fst ` set (pre full)"
  shows "\<exists>n. name_of (append_to (full, tree) m q) r = Some n \<and>
           Some n \<in> name ` set (postorder (fst (append_to (full, tree) m q)))"
proof -
  from dist have dfull: "distinct (map fst (pre full))" and dtree: "distinct (map fst (pre tree))"
    and disj: "fst ` set (pre full) \<inter> fst ` set (pre tree) = {}" by auto
  from lookup_in_pre[OF lk] disj have "q \<notin> fst ` set (pre full)" by auto
  then have df: "detach q full = full" by (rule detach_absent)
  from lk have st1: "append_to (full, tree) m q = (modify (append_child sub) m full, detach q tree)"
    by (simp add: append_to_def deref_def df)
  have "fst ` set (pre_list (children sub)) \<subseteq> fst ` set (pre sub)" by (cases sub) auto
  with r have rsub: "r \<in> fst ` set (pre sub)" by auto
  with lookup_idents_subset(1)[OF lk] have "r \<in> fst ` set (pre tree)" by auto
  with disj have rfull: "r \<notin> fst ` set (pre full)" by auto
  from detach_removes(1)[OF dtree lk qroot] rsub have "r \<notin> fst ` set (pre (detach q tree))" by auto
  then have none: "lookup (detach q tree) r = None" by (simp add: lookup_absent)
  from rsub obtain nr where nr: "lookup sub r = Some nr"
    using lookup_absent(1)[of sub r] by auto
  from lookup_graft(1)[OF dfull rfull m] nr
  have found: "lookup (modify (append_child sub) m full) r = Some nr" by simp
  from lookup_in_postorder(1)[OF nr] have in_sub: "nr \<in> set (postorder sub)" .
  from lookup_nonroot[OF lk qroot] have "sub \<in> set (postorder_list (children tree))" .
  from postorder_sub(2)[OF this] in_sub have "nr \<in> set (postorder_list (children tree))" by auto
  with named obtain n where n: "name nr = Some n" by auto
  from postorder_graft(1)[OF m, of sub] in_sub
  have "nr \<in> set (postorder (modify (append_child sub) m full))" by auto
  with n have "Some n \<in> name ` set (postorder (modify (append_child sub) m full))"
    by (metis image_eqI)
  moreover have "name_of (append_to (full, tree) m q) r = Some n"
    by (simp add: st1 name_of_def deref_def none found n)
  ultimately show ?thesis by (simp add: st1)
qed

lemma find_node_errors:
  "find_node full nm = Inl e \<Longrightarrow> e = DuplicateNodeError \<or> e = MissingNodeError"
  using find_node_cases[of full nm] by auto

lemma find_node_duplicate:
  "(find_node full nm = Inl DuplicateNodeError) = (\<not> distinct (map name (named_tips full)))"
  unfolding find_node_def by (auto split: option.splits)

lemma walk_present_distinct:
  "\<forall>r\<in>set rest. \<exists>n. name_of st r = Some n \<and> Some n \<in> name ` set (postorder (fst st)) \<Longrightarrow>
     distinct (map name (named_tips (fst st))) \<Longrightarrow> walk st m rest = Inr st"
proof -
  assume present: "\<forall>r\<in>set rest. \<exists>n. name_of st r = Some n \<and> Some n \<in> name ` set (postorder (fst st))"
    and tips: "distinct (map name (named_tips (fst st)))"
  have "walk st m rest \<noteq> Inl DuplicateNodeError"
    using present
  proof (induction rest arbitrary: m)
    case Nil
    then show ?case by simp
  next
    case (Cons r rest)
    from Cons.prems obtain n where n: "name_of st r = Some n"
      and p: "Some n \<in> name ` set (postorder (fst st))" by auto
    from find_node_cases[of "fst st" "Some n"] find_node_present[OF p]
      find_node_duplicate[of "fst st" "Some n"] tips
    obtain found where f: "find_node (fst st) (Some n) = Inr found" by auto
    from Cons.IH[of found] Cons.prems have "walk st found rest \<noteq> Inl DuplicateNodeError" by simp
    with f n show ?case by simp
  qed
  with walk_all_present[OF present, of m] show ?thesis by simp
qed

lemma walk_duplicate:
  "\<not> distinct (map name (named_tips (fst st))) \<Longrightarrow> rest \<noteq> [] \<Longrightarrow>
     walk st m rest = Inl DuplicateNodeError"
  using find_node_duplicate[of "fst st"] by (cases rest) simp_all

lemma walk_exact:
  assumes dist: "distinct (map fst (pre full) @ map fst (pre tree))"
    and named: "\<forall>node\<in>set (postorder_list (children tree)). name node \<noteq> None"
    and tips: "distinct (map name (named_tips full))"
    and path: "path_to tip tree = Some (p1 @ qs)" and p1: "p1 \<noteq> []"
    and m: "m \<in> fst ` set (pre full)"
  shows "\<exists>st'. walk_stop (full, tree) m qs = Inr st' \<and>
           (st' = (full, tree) \<and> walk (full, tree) m qs = Inr (full, tree) \<or>
            (\<exists>front matching node rest. qs = front @ node # rest \<and>
               st' = append_to (full, tree) matching node \<and>
               walk (full, tree) m qs =
                 (if rest = [] \<or> distinct (map name (named_tips (fst st'))) then Inr st'
                  else Inl DuplicateNodeError)))"
  using path p1 m
proof (induction qs arbitrary: p1 m)
  case Nil
  then show ?case by simp
next
  case (Cons q rest)
  let ?st = "(full, tree)"
  from dist have dtree: "distinct (map fst (pre tree))" by auto
  from path_descends(1)[OF dtree Cons.prems(1)] obtain sub where
    lk: "lookup tree q = Some sub" and below: "set rest \<subseteq> fst ` set (pre_list (children sub))"
    by blast
  from path_idents(1)[OF Cons.prems(1)] Cons.prems(2)
  have "set (tl (p1 @ q # rest)) \<subseteq> fst ` set (pre_list (children tree))" by simp
  moreover from Cons.prems(2) have "q \<in> set (tl (p1 @ q # rest))" by (cases p1) auto
  ultimately have "q \<in> fst ` set (pre_list (children tree))" by blast
  moreover from dtree have "ident tree \<notin> fst ` set (pre_list (children tree))" by (cases tree) auto
  ultimately have qroot: "q \<noteq> ident tree" by blast
  from find_node_cases[of full "name_of ?st q"] find_node_duplicate[of full "name_of ?st q"] tips
  consider (missing) "find_node full (name_of ?st q) = Inl MissingNodeError"
    | (found) node where "node \<in> set (postorder full)" "find_node full (name_of ?st q) = Inr (ident node)"
    by blast
  then show ?case
  proof cases
    case missing
    let ?st1 = "append_to ?st m q"
    have present: "\<forall>r\<in>set rest. \<exists>n. name_of ?st1 r = Some n \<and> Some n \<in> name ` set (postorder (fst ?st1))"
    proof
      fix r assume "r \<in> set rest"
      with below have "r \<in> fst ` set (pre_list (children sub))" by auto
      from graft_names[OF dist named lk qroot this Cons.prems(3)]
      show "\<exists>n. name_of ?st1 r = Some n \<and> Some n \<in> name ` set (postorder (fst ?st1))" .
    qed
    have w: "walk ?st1 m rest =
        (if rest = [] \<or> distinct (map name (named_tips (fst ?st1))) then Inr ?st1
         else Inl DuplicateNodeError)"
    proof (cases "rest = []")
      case True
      then show ?thesis by simp
    next
      case False
      show ?thesis
      proof (cases "distinct (map name (named_tips (fst ?st1)))")
        case True
        from walk_present_distinct[OF present True, of m] True show ?thesis by simp
      next
        case nd: False
        from walk_duplicate[OF nd False, of m] nd False show ?thesis by simp
      qed
    qed
    from missing have ws: "walk_stop ?st m (q # rest) = Inr ?st1" by simp
    from missing w have "walk ?st m (q # rest) =
        (if rest = [] \<or> distinct (map name (named_tips (fst ?st1))) then Inr ?st1
         else Inl DuplicateNodeError)" by simp
    moreover have "q # rest = [] @ q # rest" by simp
    ultimately have "\<exists>front matching node rest'. q # rest = front @ node # rest' \<and>
               ?st1 = append_to ?st matching node \<and>
               walk ?st m (q # rest) =
                 (if rest' = [] \<or> distinct (map name (named_tips (fst ?st1))) then Inr ?st1
                  else Inl DuplicateNodeError)" by blast
    with ws show ?thesis by blast
  next
    case found
    from postorder_idents(1)[OF found(1)] have m': "ident node \<in> fst ` set (pre full)" .
    from Cons.prems(1) have "path_to tip tree = Some ((p1 @ [q]) @ rest)" by simp
    moreover have "p1 @ [q] \<noteq> []" by simp
    ultimately obtain st' where
      ws: "walk_stop ?st (ident node) rest = Inr st'" and
      alt: "st' = ?st \<and> walk ?st (ident node) rest = Inr ?st \<or>
            (\<exists>front matching nd rest'. rest = front @ nd # rest' \<and>
               st' = append_to ?st matching nd \<and>
               walk ?st (ident node) rest =
                 (if rest' = [] \<or> distinct (map name (named_tips (fst st'))) then Inr st'
                  else Inl DuplicateNodeError))"
      using Cons.IH[of "p1 @ [q]" "ident node"] m' by blast
    from found(2) have e1: "walk_stop ?st m (q # rest) = walk_stop ?st (ident node) rest"
      and e2: "walk ?st m (q # rest) = walk ?st (ident node) rest" by simp_all
    from alt show ?thesis
    proof
      assume "st' = ?st \<and> walk ?st (ident node) rest = Inr ?st"
      with ws e1 e2 show ?thesis by simp
    next
      assume "\<exists>front matching nd rest'. rest = front @ nd # rest' \<and>
               st' = append_to ?st matching nd \<and>
               walk ?st (ident node) rest =
                 (if rest' = [] \<or> distinct (map name (named_tips (fst st'))) then Inr st'
                  else Inl DuplicateNodeError)"
      then obtain front matching nd rest' where r: "rest = front @ nd # rest'"
        and s: "st' = append_to ?st matching nd"
        and w: "walk ?st (ident node) rest =
                 (if rest' = [] \<or> distinct (map name (named_tips (fst st'))) then Inr st'
                  else Inl DuplicateNodeError)" by blast
      from r have "q # rest = (q # front) @ nd # rest'" by simp
      with s w e2 have "\<exists>front matching nd rest'. q # rest = front @ nd # rest' \<and>
               st' = append_to ?st matching nd \<and>
               walk ?st m (q # rest) =
                 (if rest' = [] \<or> distinct (map name (named_tips (fst st'))) then Inr st'
                  else Inl DuplicateNodeError)" by metis
      with ws e1 show ?thesis by auto
    qed
  qed
qed

section \<open>One append per walk\<close>

text \<open>
  Claim C8 as stated fails. The first sample has the row (\<^verbatim>\<open>P\<close>, Firmicutes, 1239); the
  second names the same taxon identifier Bacillota and has the row (\<^verbatim>\<open>C\<close>, Bacilli,
  91061) below it. The trees below are the ones the builder makes for them. The identifier
  91061 is not in the accumulating tree, its ancestors are the nodes 4 (\<^verbatim>\<open>p__Bacillota\<close>)
  and 6 (\<^verbatim>\<open>c__Bacilli\<close>), and \<^verbatim>\<open>p__Bacillota\<close> is absent, so its subtree is appended
  under the root. The subtree brings a second tip named 1239, and the loop, which goes on
  to the ancestor \<^verbatim>\<open>c__Bacilli\<close>, raises \<^verbatim>\<open>DuplicateNodeError\<close> from \<^verbatim>\<open>matching.find\<close>,
  where a walk that stops after the append returns the tree.
\<close>

theorem walk_continue_differs_from_stop:
  "find_node
     (TreeNode 0 None None None
        [TreeNode 1 (Some ''p__Firmicutes'') (Some 1) None [TreeNode 2 (Some ''1239'') (Some 0) (Some True) []]])
     (name_of
        (TreeNode 0 None None None
           [TreeNode 1 (Some ''p__Firmicutes'') (Some 1) None [TreeNode 2 (Some ''1239'') (Some 0) (Some True) []]],
         TreeNode 3 None None None
           [TreeNode 4 (Some ''p__Bacillota'') (Some 1) None
              [TreeNode 5 (Some ''1239'') (Some 0) (Some False) [],
               TreeNode 6 (Some ''c__Bacilli'') (Some 1) None [TreeNode 7 (Some ''91061'') (Some 0) (Some True) []]]]) 7) =
     Inl MissingNodeError \<and>
   rev (butlast (ancestors
        (TreeNode 0 None None None
           [TreeNode 1 (Some ''p__Firmicutes'') (Some 1) None [TreeNode 2 (Some ''1239'') (Some 0) (Some True) []]],
         TreeNode 3 None None None
           [TreeNode 4 (Some ''p__Bacillota'') (Some 1) None
              [TreeNode 5 (Some ''1239'') (Some 0) (Some False) [],
               TreeNode 6 (Some ''c__Bacilli'') (Some 1) None [TreeNode 7 (Some ''91061'') (Some 0) (Some True) []]]]) 7)) =
     [4, 6] \<and>
   walk (TreeNode 0 None None None
           [TreeNode 1 (Some ''p__Firmicutes'') (Some 1) None [TreeNode 2 (Some ''1239'') (Some 0) (Some True) []]],
         TreeNode 3 None None None
           [TreeNode 4 (Some ''p__Bacillota'') (Some 1) None
              [TreeNode 5 (Some ''1239'') (Some 0) (Some False) [],
               TreeNode 6 (Some ''c__Bacilli'') (Some 1) None [TreeNode 7 (Some ''91061'') (Some 0) (Some True) []]]])
        0 [4, 6] = Inl DuplicateNodeError \<and>
   walk_stop (TreeNode 0 None None None
           [TreeNode 1 (Some ''p__Firmicutes'') (Some 1) None [TreeNode 2 (Some ''1239'') (Some 0) (Some True) []]],
         TreeNode 3 None None None
           [TreeNode 4 (Some ''p__Bacillota'') (Some 1) None
              [TreeNode 5 (Some ''1239'') (Some 0) (Some False) [],
               TreeNode 6 (Some ''c__Bacilli'') (Some 1) None [TreeNode 7 (Some ''91061'') (Some 0) (Some True) []]]])
        0 [4, 6] =
     Inr (TreeNode 0 None None None
            [TreeNode 1 (Some ''p__Firmicutes'') (Some 1) None [TreeNode 2 (Some ''1239'') (Some 0) (Some True) []],
             TreeNode 4 (Some ''p__Bacillota'') (Some 1) None
               [TreeNode 5 (Some ''1239'') (Some 0) (Some False) [],
                TreeNode 6 (Some ''c__Bacilli'') (Some 1) None [TreeNode 7 (Some ''91061'') (Some 0) (Some True) []]]],
          TreeNode 3 None None None [])"
  by (simp add: merge_defs append_child_def)

text \<open>
  Claim C8, amended. Let \<^verbatim>\<open>full_tree\<close> and \<^verbatim>\<open>tree\<close> be made of different objects, let
  every node of \<^verbatim>\<open>tree\<close> below its root have a name, and let \<open>tip\<close> be a node of
  \<^verbatim>\<open>tree\<close> below its root whose name \<^verbatim>\<open>full_tree.find\<close> does not find. Then the walk
  that stops after the first append returns, and it makes at most one append: the state is
  unchanged, and then the loop as written returns it unchanged too, or it is the state
  after one \<^verbatim>\<open>matching.append(node)\<close> for an ancestor \<open>node\<close>. In that case the loop as
  written returns the same state when no ancestor is left after \<open>node\<close> or when the
  tips of the accumulating tree have pairwise distinct names after the append, and it
  raises \<^verbatim>\<open>DuplicateNodeError\<close> otherwise.
\<close>

theorem walk_appends_at_most_once:
  assumes objects: "distinct (map fst (pre full_tree) @ map fst (pre tree))"
    and named: "\<forall>node\<in>set (postorder_list (children tree)). name node \<noteq> None"
    and tip: "tip \<in> fst ` set (pre_list (children tree))"
    and absent: "find_node full_tree (name_of (full_tree, tree) tip) = Inl MissingNodeError"
  shows "\<exists>st'. walk_stop (full_tree, tree) (ident full_tree)
                  (rev (butlast (ancestors (full_tree, tree) tip))) = Inr st' \<and>
           (st' = (full_tree, tree) \<and>
            walk (full_tree, tree) (ident full_tree)
              (rev (butlast (ancestors (full_tree, tree) tip))) = Inr (full_tree, tree) \<or>
            (\<exists>front matching node rest.
               rev (butlast (ancestors (full_tree, tree) tip)) = front @ node # rest \<and>
               st' = append_to (full_tree, tree) matching node \<and>
               walk (full_tree, tree) (ident full_tree)
                 (rev (butlast (ancestors (full_tree, tree) tip))) =
                 (if rest = [] \<or> distinct (map name (named_tips (fst st'))) then Inr st'
                  else Inl DuplicateNodeError)))"
proof -
  have sub: "fst ` set (pre_list (children tree)) \<subseteq> fst ` set (pre tree)" by (cases tree) auto
  with tip have "tip \<in> fst ` set (pre tree)" by auto
  then obtain p where p: "path_to tip tree = Some p" using path_absent(1)[of tip tree] by auto
  from objects have "distinct (map fst (pre tree))" by auto
  then have "ident tree \<notin> fst ` set (pre_list (children tree))" by (cases tree) auto
  with tip have "tip \<noteq> ident tree" by blast
  with p have "p \<noteq> []" by (cases tree) (auto split: if_splits option.splits)
  then obtain x qs where pq: "p = [x] @ qs" by (cases p) auto
  then have qs: "rev (butlast (ancestors (full_tree, tree) tip)) = qs"
    by (simp add: ancestors_def p butlast_append)
  have m: "ident full_tree \<in> fst ` set (pre full_tree)" by (rule ident_in_pre)
  from absent find_node_duplicate[of full_tree "name_of (full_tree, tree) tip"]
  have tips: "distinct (map name (named_tips full_tree))" by auto
  from walk_exact[OF objects named tips p[unfolded pq] _ m] show ?thesis
    unfolding qs by simp
qed

theorem walk_appends_at_most_once_witness:
  "walk (TreeNode 0 None None None
           [TreeNode 1 (Some ''d__Bacteria'') (Some 1) None
              [TreeNode 2 (Some ''2'') (Some 0) (Some True) []]],
         TreeNode 3 None None None
           [TreeNode 4 (Some ''d__Archaea'') (Some 1) None
              [TreeNode 5 (Some ''2157'') (Some 0) (Some False) [],
               TreeNode 6 (Some ''p__Euryarchaeota'') (Some 1) None
                 [TreeNode 7 (Some ''28890'') (Some 0) (Some True) []]]]) 0
      (rev (butlast (ancestors
         (TreeNode 0 None None None
            [TreeNode 1 (Some ''d__Bacteria'') (Some 1) None
               [TreeNode 2 (Some ''2'') (Some 0) (Some True) []]],
          TreeNode 3 None None None
            [TreeNode 4 (Some ''d__Archaea'') (Some 1) None
               [TreeNode 5 (Some ''2157'') (Some 0) (Some False) [],
                TreeNode 6 (Some ''p__Euryarchaeota'') (Some 1) None
                  [TreeNode 7 (Some ''28890'') (Some 0) (Some True) []]]]) 7))) =
   Inr (TreeNode 0 None None None
          [TreeNode 1 (Some ''d__Bacteria'') (Some 1) None
             [TreeNode 2 (Some ''2'') (Some 0) (Some True) []],
           TreeNode 4 (Some ''d__Archaea'') (Some 1) None
             [TreeNode 5 (Some ''2157'') (Some 0) (Some False) [],
              TreeNode 6 (Some ''p__Euryarchaeota'') (Some 1) None
                [TreeNode 7 (Some ''28890'') (Some 0) (Some True) []]]],
        TreeNode 3 None None None []) \<and>
   walk_stop (TreeNode 0 None None None
           [TreeNode 1 (Some ''d__Bacteria'') (Some 1) None
              [TreeNode 2 (Some ''2'') (Some 0) (Some True) []]],
         TreeNode 3 None None None
           [TreeNode 4 (Some ''d__Archaea'') (Some 1) None
              [TreeNode 5 (Some ''2157'') (Some 0) (Some False) [],
               TreeNode 6 (Some ''p__Euryarchaeota'') (Some 1) None
                 [TreeNode 7 (Some ''28890'') (Some 0) (Some True) []]]]) 0
      (rev (butlast (ancestors
         (TreeNode 0 None None None
            [TreeNode 1 (Some ''d__Bacteria'') (Some 1) None
               [TreeNode 2 (Some ''2'') (Some 0) (Some True) []]],
          TreeNode 3 None None None
            [TreeNode 4 (Some ''d__Archaea'') (Some 1) None
               [TreeNode 5 (Some ''2157'') (Some 0) (Some False) [],
                TreeNode 6 (Some ''p__Euryarchaeota'') (Some 1) None
                  [TreeNode 7 (Some ''28890'') (Some 0) (Some True) []]]]) 7))) =
   Inr (TreeNode 0 None None None
          [TreeNode 1 (Some ''d__Bacteria'') (Some 1) None
             [TreeNode 2 (Some ''2'') (Some 0) (Some True) []],
           TreeNode 4 (Some ''d__Archaea'') (Some 1) None
             [TreeNode 5 (Some ''2157'') (Some 0) (Some False) [],
              TreeNode 6 (Some ''p__Euryarchaeota'') (Some 1) None
                [TreeNode 7 (Some ''28890'') (Some 0) (Some True) []]]],
        TreeNode 3 None None None []) \<and>
   rev (butlast (ancestors
         (TreeNode 0 None None None
            [TreeNode 1 (Some ''d__Bacteria'') (Some 1) None
               [TreeNode 2 (Some ''2'') (Some 0) (Some True) []]],
          TreeNode 3 None None None
            [TreeNode 4 (Some ''d__Archaea'') (Some 1) None
               [TreeNode 5 (Some ''2157'') (Some 0) (Some False) [],
                TreeNode 6 (Some ''p__Euryarchaeota'') (Some 1) None
                  [TreeNode 7 (Some ''28890'') (Some 0) (Some True) []]]]) 7)) = [4, 6]"
proof -
  let ?full = "TreeNode 0 None None None
           [TreeNode 1 (Some ''d__Bacteria'') (Some 1) None
              [TreeNode 2 (Some ''2'') (Some 0) (Some True) []]]"
  let ?tree = "TreeNode 3 None None None
           [TreeNode 4 (Some ''d__Archaea'') (Some 1) None
              [TreeNode 5 (Some ''2157'') (Some 0) (Some False) [],
               TreeNode 6 (Some ''p__Euryarchaeota'') (Some 1) None
                 [TreeNode 7 (Some ''28890'') (Some 0) (Some True) []]]]"
  let ?grafted = "(TreeNode 0 None None None
          [TreeNode 1 (Some ''d__Bacteria'') (Some 1) None
             [TreeNode 2 (Some ''2'') (Some 0) (Some True) []],
           TreeNode 4 (Some ''d__Archaea'') (Some 1) None
             [TreeNode 5 (Some ''2157'') (Some 0) (Some False) [],
              TreeNode 6 (Some ''p__Euryarchaeota'') (Some 1) None
                [TreeNode 7 (Some ''28890'') (Some 0) (Some True) []]]],
        TreeNode 3 None None None [])"
  have h1: "distinct (map fst (pre ?full) @ map fst (pre ?tree))" by simp
  have h2: "\<forall>node\<in>set (postorder_list (children ?tree)). name node \<noteq> None" by simp
  have h3: "7 \<in> fst ` set (pre_list (children ?tree))" by simp
  have h4: "find_node ?full (name_of (?full, ?tree) 7) = Inl MissingNodeError"
    by (simp add: merge_defs)
  have anc: "rev (butlast (ancestors (?full, ?tree) 7)) = [4, 6]" by (simp add: merge_defs)
  have ws: "walk_stop (?full, ?tree) 0 [4, 6] = Inr ?grafted"
    by (simp add: merge_defs append_child_def)
  have tips: "distinct (map name (named_tips (fst ?grafted)))" by (simp add: merge_defs)
  from walk_appends_at_most_once[OF h1 h2 h3 h4] obtain st' where
    s: "walk_stop (?full, ?tree) (ident ?full) (rev (butlast (ancestors (?full, ?tree) 7))) = Inr st'"
    and alt: "st' = (?full, ?tree) \<and>
            walk (?full, ?tree) (ident ?full)
              (rev (butlast (ancestors (?full, ?tree) 7))) = Inr (?full, ?tree) \<or>
            (\<exists>front matching node rest.
               rev (butlast (ancestors (?full, ?tree) 7)) = front @ node # rest \<and>
               st' = append_to (?full, ?tree) matching node \<and>
               walk (?full, ?tree) (ident ?full)
                 (rev (butlast (ancestors (?full, ?tree) 7))) =
                 (if rest = [] \<or> distinct (map name (named_tips (fst st'))) then Inr st'
                  else Inl DuplicateNodeError))" by blast
  from s ws have st': "st' = ?grafted" unfolding anc by simp
  from alt have "walk (?full, ?tree) 0 [4, 6] = Inr ?grafted"
    unfolding anc st' using tips by auto
  with ws anc show ?thesis by simp
qed

section \<open>The trees the builder makes meet the hypotheses on merged trees\<close>

lemma idents_modify_mark:
  "map fst (pre (modify set_first_child_tip p t)) = map fst (pre t)"
  "map fst (pre_list (modify_list set_first_child_tip p cs)) = map fst (pre_list cs)"
proof (induction set_first_child_tip p t and set_first_child_tip p cs rule: modify_modify_list.induct)
  case (1 j i n l t cs)
  show ?case
  proof (cases "i = j")
    case True
    have "\<And>c. map fst (pre (set_tip c)) = map fst (pre c)"
      by (case_tac c) (simp add: set_tip_def)
    with True show ?thesis by (cases cs) (simp_all add: set_first_child_tip_def)
  next
    case False
    with 1 show ?thesis by simp
  qed
qed simp_all

lemma postorder_names:
  "name ` set (postorder t) = (\<lambda>(i, n, l, t). n) ` set (pre t)"
  "name ` set (postorder_list cs) = (\<lambda>(i, n, l, t). n) ` set (pre_list cs)"
  by (induction t and cs rule: postorder_postorder_list.induct) (auto simp: image_Un)

lemma process_rows_idents:
  assumes "builder_inv (tree, stack, fresh)"
    and "process_rows (tree, stack, fresh) df = Inr (tree', stack', fresh')"
  shows "fresh \<le> fresh' \<and> (\<forall>i\<in>set (map fst (pre tree')). i \<in> set (map fst (pre tree)) \<or> fresh \<le> i)"
  using assms
proof (induction df arbitrary: tree stack fresh)
  case Nil
  then show ?case by simp
next
  case (Cons row df)
  show ?case
  proof (cases "skipped (row_rank row)")
    case True
    with Cons show ?thesis by simp
  next
    case False
    from process_rows_Cons_kept[OF False Cons.prems(2)] obtain t1 s1 f1 where
      r1: "process_row (tree, stack, fresh) row = Inr (t1, s1, f1)"
      and r2: "process_rows (t1, s1, f1) df = Inr (tree', stack', fresh')"
      by blast
    note s = process_row_step[OF Cons.prems(1) r1]
    from process_row_names(2)[OF Cons.prems(1) r1]
    have ids: "map fst (pre t1) = map fst (pre tree) @ [fresh, fresh + 1]" .
    from Cons.IH[OF s(1) r2] have le: "f1 \<le> fresh'"
      and rest: "\<forall>i\<in>set (map fst (pre tree')). i \<in> set (map fst (pre t1)) \<or> f1 \<le> i" by auto
    show ?thesis
    proof
      show "fresh \<le> fresh'" using le s(2) by simp
      show "\<forall>i\<in>set (map fst (pre tree')). i \<in> set (map fst (pre tree)) \<or> fresh \<le> i"
      proof
        fix i assume "i \<in> set (map fst (pre tree'))"
        with rest have "i \<in> set (map fst (pre t1)) \<or> f1 \<le> i" by blast
        then show "i \<in> set (map fst (pre tree)) \<or> fresh \<le> i"
          using ids s(2) by auto
      qed
    qed
  qed
qed

lemma built_tree_objects:
  assumes "kraken_to_ncbi_tree r df = Inr (tree, fresh')"
  shows "distinct (map fst (pre tree))" and "\<forall>i\<in>fst ` set (pre tree). r \<le> i \<and> i < fresh'"
proof -
  from kraken_to_ncbi_tree_Inr[OF assms] obtain tree0 stack where
    run: "process_rows (initial_builder r) df = Inr (tree0, stack, fresh')" by blast
  from kraken_to_ncbi_tree_final[OF run] assms
  have inv: "builder_inv (tree0, stack, fresh')"
    and tree: "tree = (if children_of tree0 (snd (hd stack)) \<noteq> []
                then modify set_first_child_tip (snd (hd stack)) tree0 else tree0)" by simp_all
  from tree have ids: "map fst (pre tree) = map fst (pre tree0)"
    by (simp add: idents_modify_mark)
  from inv have d0: "distinct (map fst (pre tree0))" and up: "\<forall>i\<in>fst ` set (pre tree0). i < fresh'"
    by (simp_all add: builder_inv_def)
  from d0 ids show "distinct (map fst (pre tree))" by simp
  obtain t0 s0 f0 where ib: "initial_builder r = (t0, s0, f0)" by (cases "initial_builder r")
  have i0: "builder_inv (t0, s0, f0)" using inv_initial[of r] ib by simp
  from ib have t0: "map fst (pre t0) = [r]" and f0: "f0 = r + 1" by (auto simp: initial_builder_def)
  from process_rows_idents[OF i0] run ib
  have "\<forall>i\<in>set (map fst (pre tree0)). i \<in> set (map fst (pre t0)) \<or> f0 \<le> i" by simp
  with t0 f0 have low: "\<forall>i\<in>set (map fst (pre tree0)). r \<le> i" by auto
  show "\<forall>i\<in>fst ` set (pre tree). r \<le> i \<and> i < fresh'"
  proof
    fix i assume "i \<in> fst ` set (pre tree)"
    then have "i \<in> set (map fst (pre tree0))" using ids by (metis list.set_map)
    with low up show "r \<le> i \<and> i < fresh'" by auto
  qed
qed

lemma built_tree_named:
  assumes "kraken_to_ncbi_tree r df = Inr (tree, fresh')"
  shows "\<forall>node\<in>set (postorder_list (children tree)). name node \<noteq> None"
proof -
  from kraken_to_ncbi_tree_Inr[OF assms] obtain tree0 stack where
    run: "process_rows (initial_builder r) df = Inr (tree0, stack, fresh')" by blast
  obtain t0 s0 f0 where ib: "initial_builder r = (t0, s0, f0)" by (cases "initial_builder r")
  have i0: "builder_inv (t0, s0, f0)" using inv_initial[of r] ib by simp
  from ib have t0: "node_names t0 = [None]" by (auto simp: initial_builder_def node_names_def)
  from process_rows_inv(2)[OF i0] run ib t0
  have nm0: "node_names tree0 = None # concat (map row_names (kept_rows df))" by simp
  from kraken_to_ncbi_tree_final(2)[OF run] assms
  have "tree = (if children_of tree0 (snd (hd stack)) \<noteq> []
                then modify set_first_child_tip (snd (hd stack)) tree0 else tree0)" by simp
  then have "node_names tree = node_names tree0"
    by (simp add: node_names_def names_modify_mark(1))
  with nm0 have nm: "node_names tree = None # concat (map row_names (kept_rows df))" by simp
  obtain i n l tp cs where tree: "tree = TreeNode i n l tp cs" by (cases tree)
  from nm have "map (\<lambda>(i, n, l, t). n) (pre_list cs) = concat (map row_names (kept_rows df))"
    by (simp add: node_names_def tree)
  then have "(\<lambda>(i, n, l, t). n) ` set (pre_list cs) = set (concat (map row_names (kept_rows df)))"
    by (metis list.set_map)
  also have "\<dots> \<subseteq> range Some" by (auto simp: row_names_def)
  finally have "name ` set (postorder_list cs) \<subseteq> range Some"
    by (simp add: postorder_names(2))
  then show ?thesis by (auto simp: tree)
qed

section \<open>The merger keeps its states well-formed\<close>

lemma pre_graft:
  "distinct (map fst (pre t)) \<Longrightarrow> m \<in> fst ` set (pre t) \<Longrightarrow>
     set (pre (modify (append_child sub) m t)) = set (pre t) \<union> set (pre sub) \<and>
     (distinct (map fst (pre sub)) \<longrightarrow> fst ` set (pre t) \<inter> fst ` set (pre sub) = {} \<longrightarrow>
        distinct (map fst (pre (modify (append_child sub) m t))))"
  "distinct (map fst (pre_list ts)) \<Longrightarrow> m \<in> fst ` set (pre_list ts) \<Longrightarrow>
     set (pre_list (modify_list (append_child sub) m ts)) = set (pre_list ts) \<union> set (pre sub) \<and>
     (distinct (map fst (pre sub)) \<longrightarrow> fst ` set (pre_list ts) \<inter> fst ` set (pre sub) = {} \<longrightarrow>
        distinct (map fst (pre_list (modify_list (append_child sub) m ts))))"
proof (induction "append_child sub" m t and "append_child sub" m ts rule: modify_modify_list.induct)
  case (1 j i n l t cs)
  show ?case
  proof (cases "i = j")
    case True
    with "1.prems"(1) show ?thesis
      by (auto simp: append_child_def pre_list_append)
  next
    case False
    with "1.prems" have d: "distinct (map fst (pre_list cs))" and j: "j \<in> fst ` set (pre_list cs)"
      and ni: "i \<notin> fst ` set (pre_list cs)" by auto
    note ih = "1.hyps"[OF False d j]
    from ih have s: "set (pre_list (modify_list (append_child sub) j cs)) = set (pre_list cs) \<union> set (pre sub)"
      by simp
    show ?thesis
    proof (intro conjI impI)
      show "set (pre (modify (append_child sub) j (TreeNode i n l t cs))) =
          set (pre (TreeNode i n l t cs)) \<union> set (pre sub)"
        using False s by simp
      assume ds: "distinct (map fst (pre sub))"
        and disj: "fst ` set (pre (TreeNode i n l t cs)) \<inter> fst ` set (pre sub) = {}"
      then have "fst ` set (pre_list cs) \<inter> fst ` set (pre sub) = {}" and "i \<notin> fst ` set (pre sub)"
        by auto
      with ih ds have "distinct (map fst (pre_list (modify_list (append_child sub) j cs)))" by simp
      moreover have "i \<notin> fst ` set (pre_list (modify_list (append_child sub) j cs))"
        using s ni \<open>i \<notin> fst ` set (pre sub)\<close> by (simp add: image_Un)
      ultimately show "distinct (map fst (pre (modify (append_child sub) j (TreeNode i n l t cs))))"
        using False by simp
    qed
  qed
next
  case (2 j)
  then show ?case by simp
next
  case (3 j c0 cs0)
  from "3.prems"(1) have d0: "distinct (map fst (pre c0))" and d1: "distinct (map fst (pre_list cs0))"
    and dj: "fst ` set (pre c0) \<inter> fst ` set (pre_list cs0) = {}" by auto
  show ?case
  proof (cases "j \<in> fst ` set (pre c0)")
    case True
    with dj have "j \<notin> fst ` set (pre_list cs0)" by auto
    then have same: "modify_list (append_child sub) j cs0 = cs0" by (rule modify_absent)
    note ih = "3.hyps"(1)[OF d0 True]
    from ih have s: "set (pre (modify (append_child sub) j c0)) = set (pre c0) \<union> set (pre sub)" by simp
    show ?thesis
    proof (intro conjI impI)
      show "set (pre_list (modify_list (append_child sub) j (c0 # cs0))) =
          set (pre_list (c0 # cs0)) \<union> set (pre sub)"
        using s same by auto
      assume ds: "distinct (map fst (pre sub))"
        and disj: "fst ` set (pre_list (c0 # cs0)) \<inter> fst ` set (pre sub) = {}"
      then have a: "fst ` set (pre c0) \<inter> fst ` set (pre sub) = {}"
        and b: "fst ` set (pre_list cs0) \<inter> fst ` set (pre sub) = {}" by auto
      from ih ds a have "distinct (map fst (pre (modify (append_child sub) j c0)))" by simp
      moreover have "fst ` set (pre (modify (append_child sub) j c0)) \<inter> fst ` set (pre_list cs0) = {}"
        using s dj b by (auto simp: image_Un)
      ultimately show "distinct (map fst (pre_list (modify_list (append_child sub) j (c0 # cs0))))"
        using same d1 by auto
    qed
  next
    case False
    then have same: "modify (append_child sub) j c0 = c0" by (rule modify_absent)
    from False "3.prems"(2) have j: "j \<in> fst ` set (pre_list cs0)" by auto
    note ih = "3.hyps"(2)[OF d1 j]
    from ih have s: "set (pre_list (modify_list (append_child sub) j cs0)) = set (pre_list cs0) \<union> set (pre sub)"
      by simp
    show ?thesis
    proof (intro conjI impI)
      show "set (pre_list (modify_list (append_child sub) j (c0 # cs0))) =
          set (pre_list (c0 # cs0)) \<union> set (pre sub)"
        using s same by auto
      assume ds: "distinct (map fst (pre sub))"
        and disj: "fst ` set (pre_list (c0 # cs0)) \<inter> fst ` set (pre sub) = {}"
      then have a: "fst ` set (pre c0) \<inter> fst ` set (pre sub) = {}"
        and b: "fst ` set (pre_list cs0) \<inter> fst ` set (pre sub) = {}" by auto
      from ih ds b have "distinct (map fst (pre_list (modify_list (append_child sub) j cs0)))" by simp
      moreover have "fst ` set (pre c0) \<inter> fst ` set (pre_list (modify_list (append_child sub) j cs0)) = {}"
        using s dj a by (auto simp: image_Un)
      ultimately show "distinct (map fst (pre_list (modify_list (append_child sub) j (c0 # cs0))))"
        using same d0 by auto
    qed
  qed
qed

lemma pre_detach:
  "set (pre (detach q t)) \<subseteq> set (pre t) \<and>
     (distinct (map fst (pre t)) \<longrightarrow> distinct (map fst (pre (detach q t))))"
  "set (pre_list (detach_list q cs)) \<subseteq> set (pre_list cs) \<and>
     (distinct (map fst (pre_list cs)) \<longrightarrow> distinct (map fst (pre_list (detach_list q cs))))"
proof (induction q t and q cs rule: detach_detach_list.induct)
  case (1 j i n l t cs)
  then show ?case by auto
next
  case (2 j)
  then show ?case by simp
next
  case (3 j c cs)
  show ?case
  proof (cases "ident c = j")
    case True
    then show ?thesis by auto
  next
    case False
    from "3.IH"[OF False] have a: "set (pre (detach j c)) \<subseteq> set (pre c)"
      and b: "set (pre_list (detach_list j cs)) \<subseteq> set (pre_list cs)"
      and da: "distinct (map fst (pre c)) \<longrightarrow> distinct (map fst (pre (detach j c)))"
      and db: "distinct (map fst (pre_list cs)) \<longrightarrow> distinct (map fst (pre_list (detach_list j cs)))"
      by auto
    show ?thesis
    proof (intro conjI impI)
      show "set (pre_list (detach_list j (c # cs))) \<subseteq> set (pre_list (c # cs))"
        using False a b by auto
      assume "distinct (map fst (pre_list (c # cs)))"
      then have "distinct (map fst (pre c))" "distinct (map fst (pre_list cs))"
        and "fst ` set (pre c) \<inter> fst ` set (pre_list cs) = {}" by auto
      moreover from a b have "fst ` set (pre (detach j c)) \<subseteq> fst ` set (pre c)"
        and "fst ` set (pre_list (detach_list j cs)) \<subseteq> fst ` set (pre_list cs)" by auto
      ultimately have "distinct (map fst (pre (detach j c)))"
        and "distinct (map fst (pre_list (detach_list j cs)))"
        and "fst ` set (pre (detach j c)) \<inter> fst ` set (pre_list (detach_list j cs)) = {}"
        using da db by blast+
      then show "distinct (map fst (pre_list (detach_list j (c # cs))))"
        using False by simp
    qed
  qed
qed

lemma detach_keeps:
  "distinct (map fst (pre t)) \<Longrightarrow> lookup t q = Some sub \<Longrightarrow> x \<in> fst ` set (pre t) \<Longrightarrow>
     x \<notin> fst ` set (pre sub) \<Longrightarrow> x \<in> fst ` set (pre (detach q t))"
  "distinct (map fst (pre_list cs)) \<Longrightarrow> lookup_list cs q = Some sub \<Longrightarrow>
     x \<in> fst ` set (pre_list cs) \<Longrightarrow> x \<notin> fst ` set (pre sub) \<Longrightarrow>
     x \<in> fst ` set (pre_list (detach_list q cs))"
proof (induction t q and cs q rule: lookup_lookup_list.induct)
  case (1 i n l t cs j)
  show ?case
  proof (cases "i = j")
    case True
    with "1.prems" show ?thesis by auto
  next
    case False
    with "1.prems"(2) have lk: "lookup_list cs j = Some sub" by simp
    from "1.prems"(1) have d: "distinct (map fst (pre_list cs))" by simp
    show ?thesis
    proof (cases "x = i")
      case True
      then show ?thesis by simp
    next
      case xi: False
      with "1.prems"(3) have "x \<in> fst ` set (pre_list cs)" by auto
      from "1.IH"[OF False d lk this "1.prems"(4)] show ?thesis by simp
    qed
  qed
next
  case (2 j)
  then show ?case by simp
next
  case (3 c cs j)
  from "3.prems"(1) have d0: "distinct (map fst (pre c))" and d1: "distinct (map fst (pre_list cs))"
    and dj: "fst ` set (pre c) \<inter> fst ` set (pre_list cs) = {}" by auto
  show ?case
  proof (cases "lookup c j")
    case None
    with "3.prems"(2) have lk: "lookup_list cs j = Some sub" by simp
    from None have "j \<notin> fst ` set (pre c)" by (simp add: lookup_absent)
    then have same: "detach j c = c" and nj: "ident c \<noteq> j"
      using detach_absent(1)[of j c] ident_in_pre[of c] by auto
    show ?thesis
    proof (cases "x \<in> fst ` set (pre c)")
      case True
      with same nj show ?thesis by (simp add: image_Un)
    next
      case False
      with "3.prems"(3) have "x \<in> fst ` set (pre_list cs)" by auto
      from "3.IH"(2)[OF None d1 lk this "3.prems"(4)] nj show ?thesis by (simp add: image_Un)
    qed
  next
    case (Some node)
    with "3.prems"(2) have lk: "lookup c j = Some sub" by simp
    from lookup_in_pre[OF lk] dj have "j \<notin> fst ` set (pre_list cs)" by auto
    then have same: "detach_list j cs = cs" by (rule detach_absent)
    show ?thesis
    proof (cases "ident c = j")
      case True
      with lk have "sub = c" by (cases c) simp
      with "3.prems"(3,4) True show ?thesis by auto
    next
      case False
      show ?thesis
      proof (cases "x \<in> fst ` set (pre c)")
        case True
        from "3.IH"(1)[OF d0 lk True "3.prems"(4)] False show ?thesis by (simp add: image_Un)
      next
        case xc: False
        with "3.prems"(3) have "x \<in> fst ` set (pre_list cs)" by auto
        with same False show ?thesis by (simp add: image_Un)
      qed
    qed
  qed
qed

lemma lookup_distinct:
  "distinct (map fst (pre t)) \<Longrightarrow> lookup t j = Some node \<Longrightarrow> distinct (map fst (pre node))"
  "distinct (map fst (pre_list cs)) \<Longrightarrow> lookup_list cs j = Some node \<Longrightarrow>
     distinct (map fst (pre node))"
  by (induction t j and cs j rule: lookup_lookup_list.induct)
     (auto split: option.splits if_splits)

lemma named_pre:
  assumes "distinct (map fst (pre t))"
  shows "(\<forall>node\<in>set (postorder_list (children t)). name node \<noteq> None) =
         (\<forall>e\<in>set (pre t). fst e \<noteq> ident t \<longrightarrow> fst (snd e) \<noteq> None)"
proof -
  obtain i n l tp cs where t: "t = TreeNode i n l tp cs" by (cases t)
  from assms have ni: "i \<notin> fst ` set (pre_list cs)" by (simp add: t)
  have "(\<forall>node\<in>set (postorder_list cs). name node \<noteq> None) =
        (None \<notin> name ` set (postorder_list cs))" by (metis image_iff)
  also have "\<dots> = (None \<notin> (\<lambda>(i, n, l, t). n) ` set (pre_list cs))"
    by (simp only: postorder_names(2))
  also have "\<dots> = (\<forall>e\<in>set (pre_list cs). fst (snd e) \<noteq> None)" by force
  also have "\<dots> = (\<forall>e\<in>set (pre t). fst e \<noteq> ident t \<longrightarrow> fst (snd e) \<noteq> None)"
    using ni by (auto simp: t)
  finally show ?thesis by (simp add: t)
qed

lemma ident_graft: "ident (modify (append_child sub) m t) = ident t"
  by (cases t) (simp add: append_child_def)

lemma ident_detach: "ident (detach q t) = ident t"
  by (cases t) simp

lemma append_to_wf:
  assumes wf: "forest_wf (full, tree)"
    and lk: "lookup tree q = Some sub" and qroot: "q \<noteq> ident tree"
    and m: "m \<in> fst ` set (pre full)"
  shows "forest_wf (append_to (full, tree) m q)"
    and "fst ` set (pre (fst (append_to (full, tree) m q))) \<union>
         fst ` set (pre (snd (append_to (full, tree) m q))) =
         fst ` set (pre full) \<union> fst ` set (pre tree)"
    and "fst ` set (pre full) \<subseteq> fst ` set (pre (fst (append_to (full, tree) m q)))"
    and "ident (fst (append_to (full, tree) m q)) = ident full"
    and "ident (snd (append_to (full, tree) m q)) = ident tree"
proof -
  let ?full' = "modify (append_child sub) m full"
  let ?tree' = "detach q tree"
  from wf have dfull: "distinct (map fst (pre full))" and dtree: "distinct (map fst (pre tree))"
    and disj: "fst ` set (pre full) \<inter> fst ` set (pre tree) = {}"
    and nfull: "\<forall>node\<in>set (postorder_list (children full)). name node \<noteq> None"
    and ntree: "\<forall>node\<in>set (postorder_list (children tree)). name node \<noteq> None"
    by (auto simp: forest_wf_def)
  from lookup_in_pre[OF lk] disj have "q \<notin> fst ` set (pre full)" by auto
  then have df: "detach q full = full" by (rule detach_absent)
  from lk have st1: "append_to (full, tree) m q = (?full', ?tree')"
    by (simp add: append_to_def deref_def df)
  from lookup_Some(1)[OF lk] have subset: "set (pre sub) \<subseteq> set (pre tree)" by simp
  then have isub: "fst ` set (pre sub) \<subseteq> fst ` set (pre tree)" by auto
  from lookup_distinct(1)[OF dtree lk] have dsub: "distinct (map fst (pre sub))" .
  from isub disj have dfs: "fst ` set (pre full) \<inter> fst ` set (pre sub) = {}" by auto
  from pre_graft(1)[OF dfull m, of sub] dsub dfs
  have sfull': "set (pre ?full') = set (pre full) \<union> set (pre sub)"
    and dfull': "distinct (map fst (pre ?full'))" by auto
  from pre_detach(1)[of q tree] dtree
  have stree': "set (pre ?tree') \<subseteq> set (pre tree)" and dtree': "distinct (map fst (pre ?tree'))"
    by auto
  from detach_removes(1)[OF dtree lk qroot]
  have rem: "fst ` set (pre ?tree') \<inter> fst ` set (pre sub) = {}" .
  from stree' have itree': "fst ` set (pre ?tree') \<subseteq> fst ` set (pre tree)" by auto
  have ifull': "fst ` set (pre ?full') = fst ` set (pre full) \<union> fst ` set (pre sub)"
    by (simp add: sfull' image_Un)
  have disj': "fst ` set (pre ?full') \<inter> fst ` set (pre ?tree') = {}"
    using ifull' itree' disj rem by blast
  from lookup_nonroot[OF lk qroot] have "sub \<in> set (postorder_list (children tree))" .
  from postorder_idents(2)[OF this] have "q \<in> fst ` set (pre_list (children tree))"
    using lookup_Some(1)[OF lk] by simp
  have noroot: "ident tree \<notin> fst ` set (pre sub)"
  proof -
    from \<open>sub \<in> set (postorder_list (children tree))\<close> postorder_sub(2)
    have "set (postorder sub) \<subseteq> set (postorder_list (children tree))" by blast
    then have "name ` set (postorder sub) \<subseteq> name ` set (postorder_list (children tree))" by blast
    have "fst ` set (pre sub) \<subseteq> fst ` set (pre_list (children tree))"
    proof
      fix x assume "x \<in> fst ` set (pre sub)"
      then obtain nx where "lookup sub x = Some nx" using lookup_absent(1)[of sub x] by auto
      from lookup_in_postorder(1)[OF this] lookup_Some(1)[OF this]
      have "nx \<in> set (postorder sub)" "ident nx = x" by auto
      with \<open>set (postorder sub) \<subseteq> set (postorder_list (children tree))\<close>
      have "nx \<in> set (postorder_list (children tree))" by auto
      from postorder_idents(2)[OF this] \<open>ident nx = x\<close>
      show "x \<in> fst ` set (pre_list (children tree))" by simp
    qed
    moreover from dtree have "ident tree \<notin> fst ` set (pre_list (children tree))"
      by (cases tree) auto
    ultimately show ?thesis by blast
  qed
  from ntree named_pre[OF dtree]
  have ntree_pre: "\<forall>e\<in>set (pre tree). fst e \<noteq> ident tree \<longrightarrow> fst (snd e) \<noteq> None" by simp
  from nfull named_pre[OF dfull]
  have nfull_pre: "\<forall>e\<in>set (pre full). fst e \<noteq> ident full \<longrightarrow> fst (snd e) \<noteq> None" by simp
  have "\<forall>e\<in>set (pre ?full'). fst e \<noteq> ident ?full' \<longrightarrow> fst (snd e) \<noteq> None"
  proof (intro ballI impI)
    fix e assume e: "e \<in> set (pre ?full')" and ne: "fst e \<noteq> ident ?full'"
    from e sfull' consider "e \<in> set (pre full)" | "e \<in> set (pre sub)" by auto
    then show "fst (snd e) \<noteq> None"
    proof cases
      case 1
      with nfull_pre ne show ?thesis by (simp add: ident_graft)
    next
      case 2
      with noroot have "fst e \<noteq> ident tree" by force
      with 2 subset ntree_pre show ?thesis by blast
    qed
  qed
  with named_pre[OF dfull']
  have nfull': "\<forall>node\<in>set (postorder_list (children ?full')). name node \<noteq> None" by simp
  have "\<forall>e\<in>set (pre ?tree'). fst e \<noteq> ident ?tree' \<longrightarrow> fst (snd e) \<noteq> None"
    using stree' ntree_pre by (auto simp: ident_detach)
  with named_pre[OF dtree']
  have ntree': "\<forall>node\<in>set (postorder_list (children ?tree')). name node \<noteq> None" by simp
  from dfull' dtree' disj' nfull' ntree'
  show "forest_wf (append_to (full, tree) m q)"
    unfolding st1 forest_wf_def by simp
  have "fst ` set (pre tree) \<subseteq> fst ` set (pre ?tree') \<union> fst ` set (pre sub)"
  proof
    fix x assume x: "x \<in> fst ` set (pre tree)"
    show "x \<in> fst ` set (pre ?tree') \<union> fst ` set (pre sub)"
    proof (cases "x \<in> fst ` set (pre sub)")
      case True
      then show ?thesis by simp
    next
      case False
      with x detach_keeps(1)[OF dtree lk, of x] show ?thesis by simp
    qed
  qed
  with ifull' itree' isub
  show "fst ` set (pre (fst (append_to (full, tree) m q))) \<union>
        fst ` set (pre (snd (append_to (full, tree) m q))) =
        fst ` set (pre full) \<union> fst ` set (pre tree)"
    unfolding st1 by auto
  from ifull' show "fst ` set (pre full) \<subseteq> fst ` set (pre (fst (append_to (full, tree) m q)))"
    unfolding st1 by auto
  show "ident (fst (append_to (full, tree) m q)) = ident full"
    unfolding st1 by (simp add: ident_graft)
  show "ident (snd (append_to (full, tree) m q)) = ident tree"
    unfolding st1 by (simp add: ident_detach)
qed

lemma walk_result:
  assumes dist: "distinct (map fst (pre full) @ map fst (pre tree))"
    and named: "\<forall>node\<in>set (postorder_list (children tree)). name node \<noteq> None"
    and path: "path_to tip tree = Some (p1 @ qs)" and p1: "p1 \<noteq> []"
    and m: "m \<in> fst ` set (pre full)"
  shows "walk (full, tree) m qs = Inl DuplicateNodeError \<or>
         walk (full, tree) m qs = Inr (full, tree) \<or>
         (\<exists>matching q sub. matching \<in> fst ` set (pre full) \<and> lookup tree q = Some sub \<and>
            q \<noteq> ident tree \<and> walk (full, tree) m qs = Inr (append_to (full, tree) matching q))"
  using path p1 m
proof (induction qs arbitrary: p1 m)
  case Nil
  then show ?case by simp
next
  case (Cons q rest)
  let ?st = "(full, tree)"
  from dist have dtree: "distinct (map fst (pre tree))" by auto
  from path_descends(1)[OF dtree Cons.prems(1)] obtain sub where
    lk: "lookup tree q = Some sub" and below: "set rest \<subseteq> fst ` set (pre_list (children sub))"
    by blast
  from path_idents(1)[OF Cons.prems(1)] Cons.prems(2)
  have "set (tl (p1 @ q # rest)) \<subseteq> fst ` set (pre_list (children tree))" by simp
  moreover from Cons.prems(2) have "q \<in> set (tl (p1 @ q # rest))" by (cases p1) auto
  ultimately have "q \<in> fst ` set (pre_list (children tree))" by blast
  moreover from dtree have "ident tree \<notin> fst ` set (pre_list (children tree))" by (cases tree) auto
  ultimately have qroot: "q \<noteq> ident tree" by blast
  from find_node_cases[of full "name_of ?st q"]
  consider (dup) "find_node full (name_of ?st q) = Inl DuplicateNodeError"
    | (missing) "find_node full (name_of ?st q) = Inl MissingNodeError"
    | (found) node where "node \<in> set (postorder full)" "find_node full (name_of ?st q) = Inr (ident node)"
    by blast
  then show ?case
  proof cases
    case dup
    then show ?thesis by simp
  next
    case missing
    let ?st1 = "append_to ?st m q"
    have "\<forall>r\<in>set rest. \<exists>n. name_of ?st1 r = Some n \<and> Some n \<in> name ` set (postorder (fst ?st1))"
    proof
      fix r assume "r \<in> set rest"
      with below have "r \<in> fst ` set (pre_list (children sub))" by auto
      from graft_names[OF dist named lk qroot this Cons.prems(3)]
      show "\<exists>n. name_of ?st1 r = Some n \<and> Some n \<in> name ` set (postorder (fst ?st1))" .
    qed
    from walk_all_present[OF this, of m]
    have "walk ?st1 m rest = Inl DuplicateNodeError \<or> walk ?st1 m rest = Inr ?st1" .
    then show ?thesis
    proof
      assume "walk ?st1 m rest = Inl DuplicateNodeError"
      with missing show ?thesis by simp
    next
      assume "walk ?st1 m rest = Inr ?st1"
      with missing have "walk ?st m (q # rest) = Inr (append_to ?st m q)" by simp
      with Cons.prems(3) lk qroot show ?thesis by blast
    qed
  next
    case found
    from postorder_idents(1)[OF found(1)] have m': "ident node \<in> fst ` set (pre full)" .
    from Cons.prems(1) have "path_to tip tree = Some ((p1 @ [q]) @ rest)" by simp
    from Cons.IH[OF this _ m'] found(2) show ?thesis by simp
  qed
qed

lemma walk_in_full:
  assumes wf: "forest_wf (full, tree)"
    and path: "path_to tip full = Some p"
  shows "walk (full, tree) m (tl p) = Inl DuplicateNodeError \<or>
         walk (full, tree) m (tl p) = Inr (full, tree)"
proof -
  let ?st = "(full, tree)"
  from wf have dfull: "distinct (map fst (pre full))"
    and disj: "fst ` set (pre full) \<inter> fst ` set (pre tree) = {}"
    and nfull: "\<forall>node\<in>set (postorder_list (children full)). name node \<noteq> None"
    by (auto simp: forest_wf_def)
  have "\<forall>r\<in>set (tl p). \<exists>n. name_of ?st r = Some n \<and> Some n \<in> name ` set (postorder (fst ?st))"
  proof
    fix r assume r: "r \<in> set (tl p)"
    then have "p \<noteq> []" by auto
    with path_idents(1)[OF path] r have rc: "r \<in> fst ` set (pre_list (children full))" by auto
    moreover from dfull have "ident full \<notin> fst ` set (pre_list (children full))"
      by (cases full) auto
    ultimately have rroot: "r \<noteq> ident full" by blast
    have "fst ` set (pre_list (children full)) \<subseteq> fst ` set (pre full)" by (cases full) auto
    with rc have rf: "r \<in> fst ` set (pre full)" by auto
    with disj have "r \<notin> fst ` set (pre tree)" by auto
    then have none: "lookup tree r = None" by (simp add: lookup_absent)
    from rf obtain nr where nr: "lookup full r = Some nr" using lookup_absent(1)[of full r] by auto
    from lookup_nonroot[OF nr rroot] nfull obtain n where n: "name nr = Some n" by auto
    from lookup_in_postorder(1)[OF nr] n
    have "Some n \<in> name ` set (postorder full)" by (metis image_eqI)
    moreover have "name_of ?st r = Some n" by (simp add: name_of_def deref_def none nr n)
    ultimately show "\<exists>n. name_of ?st r = Some n \<and> Some n \<in> name ` set (postorder (fst ?st))"
      by simp
  qed
  from walk_all_present[OF this, of m] show ?thesis .
qed

text \<open>
  What the walk for one tip does to a well-formed state: when the walk returns, the state
  is well-formed again, it holds the same objects, and the two roots are the same objects
  as before.
\<close>

lemma tip_walk_wf:
  assumes wf: "forest_wf st"
    and run: "walk st (ident (fst st)) (rev (butlast (ancestors st tip))) = Inr st'"
  shows "forest_wf st' \<and>
         fst ` set (pre (fst st')) \<union> fst ` set (pre (snd st')) =
           fst ` set (pre (fst st)) \<union> fst ` set (pre (snd st)) \<and>
         ident (fst st') = ident (fst st) \<and> ident (snd st') = ident (snd st)"
proof -
  obtain full tree where st: "st = (full, tree)" by (cases st)
  from wf have wf': "forest_wf (full, tree)" by (simp add: st)
  then have dist: "distinct (map fst (pre full) @ map fst (pre tree))"
    and named: "\<forall>node\<in>set (postorder_list (children tree)). name node \<noteq> None"
    by (auto simp: forest_wf_def)
  have tl_rev: "rev (butlast (rev p)) = tl p" for p :: "nat list"
    by (cases p) (simp_all add: butlast_append)
  have m: "ident full \<in> fst ` set (pre full)" by (rule ident_in_pre)
  have "st' = st \<or> (\<exists>matching q sub. matching \<in> fst ` set (pre full) \<and>
      lookup tree q = Some sub \<and> q \<noteq> ident tree \<and> st' = append_to (full, tree) matching q)"
  proof (cases "path_to tip tree")
    case (Some p)
    then have qs: "rev (butlast (ancestors st tip)) = tl p"
      by (simp add: ancestors_def st tl_rev)
    show ?thesis
    proof (cases p)
      case Nil
      with run qs show ?thesis by simp
    next
      case (Cons x qs')
      with Some have "path_to tip tree = Some ([x] @ qs')" by simp
      from walk_result[OF dist named this _ m] run qs Cons show ?thesis
        by (auto simp: st)
    qed
  next
    case None
    show ?thesis
    proof (cases "path_to tip full")
      case inner: None
      with None have "rev (butlast (ancestors st tip)) = []" by (simp add: ancestors_def st)
      with run show ?thesis by simp
    next
      case (Some p)
      with None have qs: "rev (butlast (ancestors st tip)) = tl p"
        by (simp add: ancestors_def st tl_rev)
      from walk_in_full[OF wf' Some, of "ident full"] run qs show ?thesis by (auto simp: st)
    qed
  qed
  then show ?thesis
  proof
    assume "st' = st"
    with wf show ?thesis by simp
  next
    assume "\<exists>matching q sub. matching \<in> fst ` set (pre full) \<and>
      lookup tree q = Some sub \<and> q \<noteq> ident tree \<and> st' = append_to (full, tree) matching q"
    then obtain matching q sub where mm: "matching \<in> fst ` set (pre full)"
      and lk: "lookup tree q = Some sub" and qroot: "q \<noteq> ident tree"
      and st': "st' = append_to (full, tree) matching q" by blast
    from append_to_wf(1,2,4,5)[OF wf' lk qroot mm] show ?thesis
      unfolding st' st by simp
  qed
qed

text \<open>
  The loop \<^verbatim>\<open>for tip in list(tree.tips())\<close> keeps the state well-formed, so that every
  tip meets a state in which the two trees are made of different objects and all nodes
  below the roots are named.
\<close>

lemma merge_tips_wf:
  "forest_wf st \<Longrightarrow> merge_tips st js = Inr st' \<Longrightarrow>
     forest_wf st' \<and>
     fst ` set (pre (fst st')) \<union> fst ` set (pre (snd st')) =
       fst ` set (pre (fst st)) \<union> fst ` set (pre (snd st)) \<and>
     ident (fst st') = ident (fst st) \<and> ident (snd st') = ident (snd st)"
proof (induction js arbitrary: st)
  case Nil
  then show ?case by simp
next
  case (Cons tip rest)
  show ?case
  proof (cases "find_node (fst st) (name_of st tip)")
    case (Inr found)
    with Cons.prems(2) have "merge_tips st rest = Inr st'" by simp
    from Cons.IH[OF Cons.prems(1) this] show ?thesis .
  next
    case (Inl e)
    with Cons.prems(2) have e: "e = MissingNodeError" by (auto split: if_splits)
    with Inl Cons.prems(2) obtain st1 where
      w: "walk st (ident (fst st)) (rev (butlast (ancestors st tip))) = Inr st1"
      and rest: "merge_tips st1 rest = Inr st'"
      by (auto split: sum.splits)
    from tip_walk_wf[OF Cons.prems(1) w] have wf1: "forest_wf st1"
      and same: "fst ` set (pre (fst st1)) \<union> fst ` set (pre (snd st1)) =
           fst ` set (pre (fst st)) \<union> fst ` set (pre (snd st))"
        "ident (fst st1) = ident (fst st)" "ident (snd st1) = ident (snd st)" by auto
    from Cons.IH[OF wf1 rest] same show ?thesis by simp
  qed
qed

text \<open>
  Two trees that the builder makes one after the other, the second from the identity the
  first one ended with, form a well-formed state of the merger.
\<close>

lemma built_forest_wf:
  assumes "kraken_to_ncbi_tree r df = Inr (full, fresh')"
    and "kraken_to_ncbi_tree fresh' df' = Inr (tree, fresh'')"
  shows "forest_wf (full, tree)"
proof -
  from built_tree_objects[OF assms(1)] have d1: "distinct (map fst (pre full))"
    and r1: "\<forall>i\<in>fst ` set (pre full). r \<le> i \<and> i < fresh'" by auto
  from built_tree_objects[OF assms(2)] have d2: "distinct (map fst (pre tree))"
    and r2: "\<forall>i\<in>fst ` set (pre tree). fresh' \<le> i \<and> i < fresh''" by auto
  from r1 r2 have "fst ` set (pre full) \<inter> fst ` set (pre tree) = {}" by fastforce
  with d1 d2 built_tree_named[OF assms(1)] built_tree_named[OF assms(2)]
  show ?thesis by (simp add: forest_wf_def)
qed

section \<open>Where the builder attaches a row\<close>

lemma pop_loop_dropWhile:
  "pop_loop indent x (x # rest) =
     (case dropWhile (\<lambda>y. indent \<le> fst y) (x # rest) of
        [] \<Rightarrow> Inl IndexError
      | y # ys \<Rightarrow> Inr (y, y # ys))"
proof (induction rest arbitrary: x)
  case Nil
  show ?case by simp
next
  case (Cons y ys)
  show ?case using Cons.IH[of y] by simp
qed

lemma process_row_indent0:
  assumes "get_indentation (row_name row) = 0"
  shows "process_row (tree, stack, fresh) row = Inl IndexError"
proof (cases stack)
  case Nil
  then show ?thesis by (simp add: process_row_def Let_def)
next
  case (Cons x rest)
  obtain d i where x: "x = (d, i)" by (cases x)
  have drop: "dropWhile (\<lambda>y. (0::nat) \<le> fst y) ((d, i) # rest) = []"
    by simp
  have pop: "pop_loop 0 (d, i) ((d, i) # rest) = Inl IndexError"
    by (simp only: pop_loop_dropWhile drop list.case)
  show ?thesis unfolding Cons x process_row_cons assms
    by (simp add: pop mark_first_child_def)
qed

lemma process_rows_indent0:
  "builder_inv (tree, stack, fresh) \<Longrightarrow>
     \<exists>row\<in>set df. \<not> skipped (row_rank row) \<and> get_indentation (row_name row) = 0 \<Longrightarrow>
     process_rows (tree, stack, fresh) df = Inl IndexError"
proof (induction df arbitrary: tree stack fresh)
  case Nil
  then show ?case by simp
next
  case (Cons row df)
  show ?case
  proof (cases "skipped (row_rank row)")
    case True
    with Cons.prems(2) have "\<exists>row\<in>set df. \<not> skipped (row_rank row) \<and> get_indentation (row_name row) = 0"
      by auto
    from Cons.IH[OF Cons.prems(1) this] True show ?thesis by simp
  next
    case False
    show ?thesis
    proof (cases "get_indentation (row_name row) = 0")
      case True
      from process_row_indent0[OF True] False show ?thesis by simp
    next
      case nz: False
      then have "1 \<le> get_indentation (row_name row)" by simp
      from process_row_succeeds[OF Cons.prems(1) this] obtain st' where
        run: "process_row (tree, stack, fresh) row = Inr st'" ..
      obtain t1 s1 f1 where st': "st' = (t1, s1, f1)" by (cases st')
      from process_row_step(1)[OF Cons.prems(1) run[unfolded st']]
      have inv1: "builder_inv (t1, s1, f1)" .
      from Cons.prems(2) nz
      have "\<exists>row\<in>set df. \<not> skipped (row_rank row) \<and> get_indentation (row_name row) = 0" by auto
      from Cons.IH[OF inv1 this] run st' False show ?thesis by simp
    qed
  qed
qed

lemma path_to_list_append:
  "path_to_list j (xs @ ys) =
     (case path_to_list j xs of Some p \<Rightarrow> Some p | None \<Rightarrow> path_to_list j ys)"
  by (induction xs) (auto split: option.splits)

lemma path_set_tip: "path_to j (set_tip c) = path_to j c"
  by (cases c) (simp add: set_tip_def)

lemma path_mark:
  "path_to j (modify set_first_child_tip p t) = path_to j t"
  "path_to_list j (modify_list set_first_child_tip p cs) = path_to_list j cs"
proof (induction set_first_child_tip p t and set_first_child_tip p cs rule: modify_modify_list.induct)
  case (1 q i n l t cs)
  show ?case
  proof (cases "i = q")
    case True
    then show ?thesis
      by (cases cs) (simp_all add: set_first_child_tip_def path_set_tip)
  next
    case False
    with 1 show ?thesis by simp
  qed
next
  case (2 q)
  show ?case by simp
next
  case (3 q c cs)
  then show ?case by (simp split: option.splits)
qed

lemma path_graft_old:
  "j \<notin> fst ` set (pre c) \<Longrightarrow> path_to j (modify (append_child c) p t) = path_to j t"
  "j \<notin> fst ` set (pre c) \<Longrightarrow> path_to_list j (modify_list (append_child c) p ts) = path_to_list j ts"
proof (induction "append_child c" p t and "append_child c" p ts rule: modify_modify_list.induct)
  case (1 q i n l t cs)
  show ?case
  proof (cases "i = q")
    case True
    from "1.prems" have "path_to j c = None" by (simp add: path_absent)
    with True show ?thesis
      by (simp add: append_child_def path_to_list_append split: option.splits)
  next
    case False
    with 1 show ?thesis by simp
  qed
next
  case (2 q)
  show ?case by simp
next
  case (3 q c0 cs0)
  then show ?case by (simp split: option.splits)
qed

lemma path_graft_new:
  "p \<in> fst ` set (pre t) \<Longrightarrow> j \<notin> fst ` set (pre t) \<Longrightarrow> path_to j c = Some pc \<Longrightarrow>
     \<exists>q. path_to j (modify (append_child c) p t) = Some (q @ p # pc)"
  "p \<in> fst ` set (pre_list ts) \<Longrightarrow> j \<notin> fst ` set (pre_list ts) \<Longrightarrow> path_to j c = Some pc \<Longrightarrow>
     \<exists>q. path_to_list j (modify_list (append_child c) p ts) = Some (q @ p # pc)"
proof (induction "append_child c" p t and "append_child c" p ts rule: modify_modify_list.induct)
  case (1 q i n l t cs)
  from "1.prems"(2) have ij: "i \<noteq> j" and jcs: "j \<notin> fst ` set (pre_list cs)" by auto
  show ?case
  proof (cases "i = q")
    case True
    from jcs have "path_to_list j cs = None" by (simp add: path_absent)
    with True ij "1.prems"(3) have
      "path_to j (modify (append_child c) q (TreeNode i n l t cs)) = Some ([] @ q # pc)"
      by (simp add: append_child_def path_to_list_append)
    then show ?thesis by blast
  next
    case False
    with "1.prems"(1) have "q \<in> fst ` set (pre_list cs)" by auto
    from "1.hyps"[OF False this jcs "1.prems"(3)] obtain q' where
      "path_to_list j (modify_list (append_child c) q cs) = Some (q' @ q # pc)" ..
    with False ij have
      "path_to j (modify (append_child c) q (TreeNode i n l t cs)) = Some ((i # q') @ q # pc)"
      by simp
    then show ?thesis by blast
  qed
next
  case (2 q)
  then show ?case by simp
next
  case (3 q c0 cs0)
  from "3.prems"(2) have j0: "j \<notin> fst ` set (pre c0)" and j1: "j \<notin> fst ` set (pre_list cs0)"
    by auto
  show ?case
  proof (cases "q \<in> fst ` set (pre c0)")
    case True
    from "3.hyps"(1)[OF True j0 "3.prems"(3)] show ?thesis by auto
  next
    case False
    then have same: "modify (append_child c) q c0 = c0" by (rule modify_absent)
    from j0 have none: "path_to j c0 = None" by (simp add: path_absent)
    from False "3.prems"(1) have "q \<in> fst ` set (pre_list cs0)" by auto
    from "3.hyps"(2)[OF this j1 "3.prems"(3)] same none show ?thesis by simp
  qed
qed

lemma find_dropWhile_less:
  "(d::nat) \<le> indent \<Longrightarrow>
     List.find (\<lambda>x. fst x < d) (dropWhile (\<lambda>y. indent \<le> fst y) xs) = List.find (\<lambda>x. fst x < d) xs"
  by (induction xs) auto

lemma dropWhile_find:
  "dropWhile (\<lambda>y. (indent::nat) \<le> fst y) xs = y # ys \<Longrightarrow>
     List.find (\<lambda>x. fst x < indent) xs = Some y"
  by (induction xs) (auto split: if_splits)

lemma parent_of_last: "path_to j t = Some (q @ [p]) \<Longrightarrow> parent_of j t = Some p"
  by (simp add: parent_of_def)

text \<open>
  One row that the loop body completes for. \<open>earlier\<close> lists the rank nodes made so far,
  the nearest first and the root last; the stack and this list agree on the nearest entry
  below any indentation. The row's rank node is attached under the nearest earlier node of
  smaller indentation, and no other node moves.
\<close>

lemma process_row_attach:
  assumes inv: "builder_inv (tree, stack, fresh)"
    and hist: "\<And>d. List.find (\<lambda>x. fst x < d) stack = List.find (\<lambda>x. fst x < d) earlier"
    and run: "process_row (tree, stack, fresh) row = Inr (tree', stack', fresh')"
  shows "List.find (\<lambda>x. fst x < d0) stack' =
           List.find (\<lambda>x. fst x < d0) ((get_indentation (row_name row), fresh) # earlier)"
    and "parent_of fresh tree' =
           map_option snd (List.find (\<lambda>x. fst x < get_indentation (row_name row)) earlier)"
    and "parent_of (fresh + 1) tree' = Some fresh"
    and "j \<in> fst ` set (pre tree) \<Longrightarrow> path_to j tree' = path_to j tree"
proof -
  define indent where "indent = get_indentation (row_name row)"
  define id_node where "id_node = TreeNode (fresh + 1) (Some (row_ncbi_tax_id row)) (Some 0) (Some False) []"
  define node where "node = TreeNode fresh (Some (lower (row_rank row) @ ''__'' @ strip (row_name row))) (Some 1) None [id_node]"
  from inv obtain d i rest where stack: "stack = (d, i) # rest"
    by (cases stack) (auto simp: builder_inv_def)
  from inv have bound: "\<forall>i\<in>fst ` set (pre tree). i < fresh" by (auto simp: builder_inv_def)
  from inv obtain tail where sp: "spine tree = rev (map snd stack) @ tail" by (auto simp: builder_inv_def)
  have cons: "process_row (tree, (d, i) # rest, fresh) row =
     (case (if indent \<le> d then mark_first_child tree i else Inr tree) of
        Inl e \<Rightarrow> Inl e
      | Inr tree1 \<Rightarrow>
          (case pop_loop indent (d, i) ((d, i) # rest) of
             Inl e \<Rightarrow> Inl e
           | Inr (parent', stack'') \<Rightarrow>
               Inr (append_node tree1 (snd parent') node, (indent, fresh) # stack'', fresh + 2)))"
    unfolding indent_def node_def id_node_def by (rule process_row_cons)
  from run have run0: "process_row (tree, (d, i) # rest, fresh) row = Inr (tree', stack', fresh')"
    unfolding stack .
  obtain tree1 where m: "(if indent \<le> d then mark_first_child tree i else Inr tree) = Inr tree1"
    using run0 unfolding cons
    by (cases "if indent \<le> d then mark_first_child tree i else Inr tree") simp_all
  obtain parent' stack'' where
    pop0: "pop_loop indent (d, i) ((d, i) # rest) = Inr (parent', stack'')"
    using run0 unfolding cons m
    by (cases "pop_loop indent (d, i) ((d, i) # rest)") auto
  obtain d' p' where parent': "parent' = (d', p')" by (cases parent')
  from run0 have
    res: "tree' = append_node tree1 p' node" "stack' = (indent, fresh) # stack''" "fresh' = fresh + 2"
    unfolding cons m pop0 parent' by simp_all
  from m have tree1_def: "tree1 = (if indent \<le> d then modify set_first_child_tip i tree else tree)"
    by (auto simp: mark_first_child_def split: if_splits)
  have drop: "dropWhile (\<lambda>y. indent \<le> fst y) stack = stack''" and hd'': "\<exists>ys. stack'' = (d', p') # ys"
  proof -
    from pop0 have "(case dropWhile (\<lambda>y. indent \<le> fst y) ((d, i) # rest) of
        [] \<Rightarrow> Inl IndexError | y # ys \<Rightarrow> Inr (y, y # ys)) = Inr (parent', stack'')"
      by (simp only: pop_loop_dropWhile)
    then have "dropWhile (\<lambda>y. indent \<le> fst y) ((d, i) # rest) = stack'' \<and>
        (\<exists>ys. stack'' = parent' # ys)"
      by (cases "dropWhile (\<lambda>y. indent \<le> fst y) ((d, i) # rest)") auto
    then show "dropWhile (\<lambda>y. indent \<le> fst y) stack = stack''" and "\<exists>ys. stack'' = (d', p') # ys"
      by (simp_all add: stack parent')
  qed
  from hd'' obtain ys where ys: "stack'' = (d', p') # ys" ..
  have ids1: "map fst (pre tree1) = map fst (pre tree)"
    by (simp add: tree1_def idents_modify_mark(1))
  have path1: "path_to j tree1 = path_to j tree" for j
    by (simp add: tree1_def path_mark(1))
  have "set stack'' \<subseteq> set stack" using drop set_dropWhileD by fastforce
  with ys have "(d', p') \<in> set stack" by auto
  then have "p' \<in> set (rev (map snd stack))" by force
  with sp have "p' \<in> set (spine tree)" by simp
  with spine_subset(1)[of tree] have "p' \<in> fst ` set (pre tree)" by blast
  then have p'_in: "p' \<in> fst ` set (pre tree1)" using ids1 by (metis list.set_map)
  have fresh_notin: "fresh \<notin> fst ` set (pre tree1)" "fresh + 1 \<notin> fst ` set (pre tree1)"
  proof -
    have e: "fst ` set (pre tree1) = fst ` set (pre tree)" using ids1 by (metis list.set_map)
    from bound show "fresh \<notin> fst ` set (pre tree1)" unfolding e by auto
    from bound show "fresh + 1 \<notin> fst ` set (pre tree1)" unfolding e by auto
  qed
  have tree': "tree' = modify (append_child node) p' tree1" by (simp add: res append_node_def)
  show "List.find (\<lambda>x. fst x < d0) stack' =
           List.find (\<lambda>x. fst x < d0) ((get_indentation (row_name row), fresh) # earlier)"
  proof (cases "indent < d0")
    case True
    then show ?thesis by (simp add: res indent_def)
  next
    case False
    then have le: "d0 \<le> indent" by simp
    from find_dropWhile_less[OF le, of stack] drop hist[of d0]
    have "List.find (\<lambda>x. fst x < d0) stack'' = List.find (\<lambda>x. fst x < d0) earlier" by simp
    with False show ?thesis by (simp add: res indent_def)
  qed
  show "parent_of fresh tree' =
           map_option snd (List.find (\<lambda>x. fst x < get_indentation (row_name row)) earlier)"
  proof -
    from dropWhile_find[of indent stack "(d', p')" ys] drop ys
    have "List.find (\<lambda>x. fst x < indent) stack = Some (d', p')" by simp
    with hist[of indent] have "List.find (\<lambda>x. fst x < indent) earlier = Some (d', p')" by simp
    moreover have "path_to fresh node = Some []" by (simp add: node_def)
    from path_graft_new(1)[OF p'_in fresh_notin(1) this] obtain q where
      "path_to fresh tree' = Some (q @ [p'])" unfolding tree' by auto
    then have "parent_of fresh tree' = Some p'" by (rule parent_of_last)
    ultimately show ?thesis by (simp add: indent_def)
  qed
  show "parent_of (fresh + 1) tree' = Some fresh"
  proof -
    have "path_to (fresh + 1) node = Some [fresh]" by (simp add: node_def id_node_def)
    from path_graft_new(1)[OF p'_in fresh_notin(2) this] obtain q where
      "path_to (fresh + 1) tree' = Some ((q @ [p']) @ [fresh])" unfolding tree' by auto
    then show ?thesis by (rule parent_of_last)
  qed
  show "j \<in> fst ` set (pre tree) \<Longrightarrow> path_to j tree' = path_to j tree"
  proof -
    assume "j \<in> fst ` set (pre tree)"
    with bound have "j < fresh" by auto
    then have "j \<notin> fst ` set (pre node)" by (auto simp: node_def id_node_def)
    from path_graft_old(1)[OF this, of p' tree1] path1[of j] show ?thesis by (simp add: tree')
  qed
qed

lemma process_rows_parents:
  "builder_inv (tree, stack, fresh) \<Longrightarrow>
     (\<And>d. List.find (\<lambda>x. fst x < d) stack = List.find (\<lambda>x. fst x < d) earlier) \<Longrightarrow>
     process_rows (tree, stack, fresh) df = Inr (tree', stack', fresh') \<Longrightarrow>
     fresh' = fresh + 2 * length (kept_rows df) \<and>
     map (\<lambda>j. parent_of j tree') [fresh ..< fresh'] = expected_parents earlier fresh (kept_rows df) \<and>
     (\<forall>j\<in>fst ` set (pre tree). path_to j tree' = path_to j tree) \<and>
     map fst (pre tree') = map fst (pre tree) @ [fresh ..< fresh']"
proof (induction df arbitrary: tree stack fresh earlier)
  case Nil
  then show ?case by (simp add: kept_rows_def)
next
  case (Cons row df)
  show ?case
  proof (cases "skipped (row_rank row)")
    case True
    with Cons.prems(3) have run: "process_rows (tree, stack, fresh) df = Inr (tree', stack', fresh')"
      by simp
    from True have k: "kept_rows (row # df) = kept_rows df" by (simp add: kept_rows_def)
    from Cons.IH[OF Cons.prems(1) Cons.prems(2) run] show ?thesis unfolding k .
  next
    case False
    from process_rows_Cons_kept[OF False Cons.prems(3)] obtain t1 s1 f1 where
      step: "process_row (tree, stack, fresh) row = Inr (t1, s1, f1)" and
      rest: "process_rows (t1, s1, f1) df = Inr (tree', stack', fresh')" by blast
    define indent where "indent = get_indentation (row_name row)"
    from process_row_step(1,2)[OF Cons.prems(1) step] have inv1: "builder_inv (t1, s1, f1)"
      and f1: "f1 = fresh + 2" by auto
    from process_row_names(2)[OF Cons.prems(1) step]
    have ids1: "map fst (pre t1) = map fst (pre tree) @ [fresh, fresh + 1]" .
    have hist1: "\<And>d. List.find (\<lambda>x. fst x < d) s1 =
        List.find (\<lambda>x. fst x < d) ((indent, fresh) # earlier)"
      unfolding indent_def by (rule process_row_attach(1)[OF Cons.prems(1) Cons.prems(2) step])
    note a2 = process_row_attach(2)[OF Cons.prems(1) Cons.prems(2) step]
    note a3 = process_row_attach(3)[OF Cons.prems(1) Cons.prems(2) step]
    note a4 = process_row_attach(4)[OF Cons.prems(1) Cons.prems(2) step]
    from Cons.IH[OF inv1[unfolded f1] hist1[unfolded f1] rest[unfolded f1]]
    have fr: "fresh' = fresh + 2 + 2 * length (kept_rows df)"
      and par: "map (\<lambda>j. parent_of j tree') [fresh + 2 ..< fresh'] =
          expected_parents ((indent, fresh) # earlier) (fresh + 2) (kept_rows df)"
      and old: "\<forall>j\<in>fst ` set (pre t1). path_to j tree' = path_to j t1"
      and ids: "map fst (pre tree') = map fst (pre t1) @ [fresh + 2 ..< fresh']"
      by auto
    from False have k: "kept_rows (row # df) = row # kept_rows df" by (simp add: kept_rows_def)
    have in1: "fresh \<in> fst ` set (pre t1)" "fresh + 1 \<in> fst ` set (pre t1)"
      and sub: "fst ` set (pre tree) \<subseteq> fst ` set (pre t1)"
    proof -
      have e: "fst ` set (pre t1) = set (map fst (pre tree) @ [fresh, fresh + 1])"
        using ids1 by (metis list.set_map)
      show "fresh \<in> fst ` set (pre t1)" "fresh + 1 \<in> fst ` set (pre t1)"
        and "fst ` set (pre tree) \<subseteq> fst ` set (pre t1)" unfolding e by auto
    qed
    from old in1 have "path_to fresh tree' = path_to fresh t1"
      and "path_to (fresh + 1) tree' = path_to (fresh + 1) t1" by blast+
    then have p0: "parent_of fresh tree' = parent_of fresh t1"
      and p1: "parent_of (fresh + 1) tree' = parent_of (fresh + 1) t1"
      by (simp_all only: parent_of_def)
    from fr have upt: "[fresh ..< fresh'] = fresh # (fresh + 1) # [fresh + 2 ..< fresh']"
      by (simp add: upt_rec)
    have "fresh' = fresh + 2 * length (kept_rows (row # df))" using fr k by simp
    moreover have "map (\<lambda>j. parent_of j tree') [fresh ..< fresh'] =
        expected_parents earlier fresh (kept_rows (row # df))"
      unfolding upt k using p0 p1 a2 a3 par by (simp add: indent_def)
    moreover have "\<forall>j\<in>fst ` set (pre tree). path_to j tree' = path_to j tree"
    proof
      fix j assume j: "j \<in> fst ` set (pre tree)"
      with sub old have "path_to j tree' = path_to j t1" by blast
      with a4[OF j] show "path_to j tree' = path_to j tree" by simp
    qed
    moreover have "map fst (pre tree') = map fst (pre tree) @ [fresh ..< fresh']"
      unfolding upt using ids ids1 by simp
    ultimately show ?thesis by blast
  qed
qed

lemma parent_of_mark: "parent_of j (modify set_first_child_tip p t) = parent_of j t"
  by (simp only: parent_of_def path_mark(1))

text \<open>
  Claim C1, amended. \<^verbatim>\<open>_kraken_to_ncbi_tree\<close> raises \<^verbatim>\<open>IndexError\<close> when some row that is
  not skipped has indentation 0, wherever it stands. Otherwise, whatever the order of the
  indentations, it returns a tree and raises nothing: the tree is rooted at the unnamed
  node created first, it holds the root and two nodes for every row that is not skipped,
  in the order of their creation, the rank node of each such row hangs under the rank node
  of the nearest earlier such row of smaller indentation, or under the root when there is
  none, and the identifier node hangs under its rank node.
\<close>

theorem kraken_to_ncbi_tree_returns:
  "if (\<exists>row\<in>set df. \<not> skipped (row_rank row) \<and> get_indentation (row_name row) = 0)
   then kraken_to_ncbi_tree fresh df = Inl IndexError
   else (\<exists>tree. kraken_to_ncbi_tree fresh df = Inr (tree, fresh + 1 + 2 * length (kept_rows df)) \<and>
           ident tree = fresh \<and> name tree = None \<and>
           map fst (pre tree) = [fresh ..< fresh + 1 + 2 * length (kept_rows df)] \<and>
           map (\<lambda>j. parent_of j tree) [fresh + 1 ..< fresh + 1 + 2 * length (kept_rows df)] =
             expected_parents [(0, fresh)] (fresh + 1) (kept_rows df))"
proof (cases "\<exists>row\<in>set df. \<not> skipped (row_rank row) \<and> get_indentation (row_name row) = 0")
  case True
  have ib: "initial_builder fresh = (TreeNode fresh None None None [], [(0, fresh)], fresh + 1)"
    by (simp add: initial_builder_def)
  have "builder_inv (TreeNode fresh None None None [], [(0, fresh)], fresh + 1)"
    using inv_initial[of fresh] by (simp only: ib)
  from process_rows_indent0[OF this True]
  have "kraken_to_ncbi_tree fresh df = Inl IndexError"
    by (simp add: kraken_to_ncbi_tree_def ib)
  with True show ?thesis by (simp only: if_True)
next
  case False
  let ?t0 = "TreeNode fresh None None None []"
  have ib: "initial_builder fresh = (?t0, [(0, fresh)], fresh + 1)"
    by (simp add: initial_builder_def)
  have i0: "builder_inv (?t0, [(0, fresh)], fresh + 1)"
    using inv_initial[of fresh] by (simp only: ib)
  from False have "\<forall>row\<in>set df. \<not> skipped (row_rank row) \<longrightarrow> 1 \<le> get_indentation (row_name row)"
    by (metis One_nat_def Suc_leI neq0_conv)
  from process_rows_succeeds[OF i0 this] obtain st' where
    run: "process_rows (?t0, [(0, fresh)], fresh + 1) df = Inr st'" ..
  obtain tree0 stack fresh' where st': "st' = (tree0, stack, fresh')" by (cases st')
  from run st' ib have run': "process_rows (initial_builder fresh) df = Inr (tree0, stack, fresh')"
    by simp
  note fin = kraken_to_ncbi_tree_final(2)[OF run']
  define tree where "tree = (if children_of tree0 (snd (hd stack)) \<noteq> []
      then modify set_first_child_tip (snd (hd stack)) tree0 else tree0)"
  have "fresh' = fresh + 1 + 2 * length (kept_rows df) \<and>
     map (\<lambda>j. parent_of j tree0) [fresh + 1 ..< fresh'] =
       expected_parents [(0, fresh)] (fresh + 1) (kept_rows df) \<and>
     (\<forall>j\<in>fst ` set (pre ?t0). path_to j tree0 = path_to j ?t0) \<and>
     map fst (pre tree0) = map fst (pre ?t0) @ [fresh + 1 ..< fresh']"
    by (rule process_rows_parents[OF i0 refl run[unfolded st']])
  then have fr: "fresh' = fresh + 1 + 2 * length (kept_rows df)"
    and par: "map (\<lambda>j. parent_of j tree0) [fresh + 1 ..< fresh'] =
        expected_parents [(0, fresh)] (fresh + 1) (kept_rows df)"
    and ids: "map fst (pre tree0) = map fst (pre ?t0) @ [fresh + 1 ..< fresh']"
    by blast+
  from fr have upt: "[fresh ..< fresh'] = fresh # [fresh + 1 ..< fresh']" by (simp add: upt_rec)
  from ids have ids0: "map fst (pre tree0) = [fresh ..< fresh']" by (simp add: upt)
  have "ident tree0 = fresh"
    using ids0 upt by (cases tree0) simp
  moreover have "name tree0 = None"
  proof -
    from process_rows_inv(2)[OF i0 run[unfolded st']]
    have "node_names tree0 = node_names ?t0 @ concat (map row_names (kept_rows df))" .
    then show ?thesis by (cases tree0) (simp add: node_names_def)
  qed
  ultimately have root: "ident tree = fresh" "name tree = None"
    using modify_mark_root[of "snd (hd stack)" tree0] by (simp_all add: tree_def)
  have "map fst (pre tree) = [fresh ..< fresh']"
    using ids0 by (simp add: tree_def idents_modify_mark(1))
  moreover have "map (\<lambda>j. parent_of j tree) [fresh + 1 ..< fresh'] =
      expected_parents [(0, fresh)] (fresh + 1) (kept_rows df)"
    using par by (simp add: tree_def parent_of_mark)
  moreover have "kraken_to_ncbi_tree fresh df = Inr (tree, fresh')"
    using fin by (simp only: tree_def)
  ultimately have "\<exists>tree. kraken_to_ncbi_tree fresh df = Inr (tree, fresh + 1 + 2 * length (kept_rows df)) \<and>
           ident tree = fresh \<and> name tree = None \<and>
           map fst (pre tree) = [fresh ..< fresh + 1 + 2 * length (kept_rows df)] \<and>
           map (\<lambda>j. parent_of j tree) [fresh + 1 ..< fresh + 1 + 2 * length (kept_rows df)] =
             expected_parents [(0, fresh)] (fresh + 1) (kept_rows df)"
    using root unfolding fr by blast
  with False show ?thesis by (simp only: if_False)
qed

theorem kraken_to_ncbi_tree_returns_witness:
  "kraken_to_ncbi_tree 0
      [report_row ''D'' ''      Bacteria'' ''2'' (1 / 2),
       report_row ''P'' ''  Ph'' ''3'' (1 / 2),
       report_row ''S'' ''    Sp'' ''4'' (1 / 2),
       report_row ''G'' ''    Ge'' ''6'' (1 / 2)] =
     Inr (TreeNode 0 None None None
            [TreeNode 1 (Some ''d__Bacteria'') (Some 1) None
               [TreeNode 2 (Some ''2'') (Some 0) (Some True) []],
             TreeNode 3 (Some ''p__Ph'') (Some 1) None
               [TreeNode 4 (Some ''3'') (Some 0) (Some False) [],
                TreeNode 5 (Some ''s__Sp'') (Some 1) None
                  [TreeNode 6 (Some ''4'') (Some 0) (Some True) []],
                TreeNode 7 (Some ''g__Ge'') (Some 1) None
                  [TreeNode 8 (Some ''6'') (Some 0) (Some True) []]]], 9) \<and>
   map (\<lambda>j. parent_of j
          (TreeNode 0 None None None
            [TreeNode 1 (Some ''d__Bacteria'') (Some 1) None
               [TreeNode 2 (Some ''2'') (Some 0) (Some True) []],
             TreeNode 3 (Some ''p__Ph'') (Some 1) None
               [TreeNode 4 (Some ''3'') (Some 0) (Some False) [],
                TreeNode 5 (Some ''s__Sp'') (Some 1) None
                  [TreeNode 6 (Some ''4'') (Some 0) (Some True) []],
                TreeNode 7 (Some ''g__Ge'') (Some 1) None
                  [TreeNode 8 (Some ''6'') (Some 0) (Some True) []]]])) [1, 2, 3, 4, 5, 6, 7, 8] =
     [Some 0, Some 1, Some 0, Some 3, Some 3, Some 5, Some 3, Some 7]"
proof -
  let ?df = "[report_row ''D'' ''      Bacteria'' ''2'' (1 / 2),
       report_row ''P'' ''  Ph'' ''3'' (1 / 2),
       report_row ''S'' ''    Sp'' ''4'' (1 / 2),
       report_row ''G'' ''    Ge'' ''6'' (1 / 2)]"
  let ?tree = "TreeNode 0 None None None
            [TreeNode 1 (Some ''d__Bacteria'') (Some 1) None
               [TreeNode 2 (Some ''2'') (Some 0) (Some True) []],
             TreeNode 3 (Some ''p__Ph'') (Some 1) None
               [TreeNode 4 (Some ''3'') (Some 0) (Some False) [],
                TreeNode 5 (Some ''s__Sp'') (Some 1) None
                  [TreeNode 6 (Some ''4'') (Some 0) (Some True) []],
                TreeNode 7 (Some ''g__Ge'') (Some 1) None
                  [TreeNode 8 (Some ''6'') (Some 0) (Some True) []]]]"
  have e: "kraken_to_ncbi_tree 0 ?df = Inr (?tree, 9)"
    by (simp add: eval_defs)
  have c: "\<not> (\<exists>row\<in>set ?df. \<not> skipped (row_rank row) \<and> get_indentation (row_name row) = 0)"
    by (simp add: get_indentation_def report_row_def)
  have k: "kept_rows ?df = ?df"
    by (simp add: kept_rows_def skipped_def startswith_def report_row_def)
  have x: "expected_parents [(0, 0)] (0 + 1) ?df =
      [Some 0, Some 1, Some 0, Some 3, Some 3, Some 5, Some 3, Some 7]"
    by (simp add: get_indentation_def report_row_def)
  have u: "[0 + 1 ..< 0 + 1 + 2 * length ?df] = [1, 2, 3, 4, 5, 6, 7, 8]"
    by (simp add: upt_rec)
  from kraken_to_ncbi_tree_returns[of ?df 0] c
  have "\<exists>tree. kraken_to_ncbi_tree 0 ?df = Inr (tree, 0 + 1 + 2 * length (kept_rows ?df)) \<and>
           ident tree = 0 \<and> name tree = None \<and>
           map fst (pre tree) = [0 ..< 0 + 1 + 2 * length (kept_rows ?df)] \<and>
           map (\<lambda>j. parent_of j tree) [0 + 1 ..< 0 + 1 + 2 * length (kept_rows ?df)] =
             expected_parents [(0, 0)] (0 + 1) (kept_rows ?df)"
    by (simp only: if_False)
  then obtain tree where t: "kraken_to_ncbi_tree 0 ?df = Inr (tree, 0 + 1 + 2 * length (kept_rows ?df))"
    and p: "map (\<lambda>j. parent_of j tree) [0 + 1 ..< 0 + 1 + 2 * length (kept_rows ?df)] =
             expected_parents [(0, 0)] (0 + 1) (kept_rows ?df)" by blast
  from t e have "tree = ?tree" by simp
  with p have "map (\<lambda>j. parent_of j ?tree) [1, 2, 3, 4, 5, 6, 7, 8] =
      [Some 0, Some 1, Some 0, Some 3, Some 3, Some 5, Some 3, Some 7]"
    unfolding k u x by simp
  with e show ?thesis by simp
qed

end
